theory Spec2Isabelle
  imports Main
begin

section \<open>Strings and characters\<close>

text \<open>
  The program is the class \<open>I18nProjectManager\<close> (TypeScript). Its strings are modelled as
  \<open>string\<close>; every character the two language-code patterns accept is an ASCII letter, an
  ASCII digit or one of the separators, so the case mappings below are the ASCII ones
  (\<open>toLowerCase\<close> and \<open>toUpperCase\<close> are only ever applied to matched groups).
\<close>

definition char_range :: "char \<Rightarrow> char \<Rightarrow> char \<Rightarrow> bool" where
  "char_range lo hi c = ((of_char lo :: nat) \<le> of_char c \<and> (of_char c :: nat) \<le> of_char hi)"

definition one_of :: "string \<Rightarrow> char \<Rightarrow> bool" where
  "one_of cs c = (c \<in> set cs)"

definition to_upper :: "char \<Rightarrow> char" where
  "to_upper c = (if char_range CHR ''a'' CHR ''z'' c then char_of (of_char c - (32 :: nat)) else c)"

definition to_lower :: "char \<Rightarrow> char" where
  "to_lower c = (if char_range CHR ''A'' CHR ''Z'' c then char_of (of_char c + (32 :: nat)) else c)"

definition toUpperCase :: "string \<Rightarrow> string" where
  "toUpperCase s = map to_upper s"

definition toLowerCase :: "string \<Rightarrow> string" where
  "toLowerCase s = map to_lower s"

fun starts_with :: "string \<Rightarrow> string \<Rightarrow> bool" where
  "starts_with s [] = True"
| "starts_with [] (p # ps) = False"
| "starts_with (c # cs) (p # ps) = (c = p \<and> starts_with cs ps)"

definition endsWith :: "string \<Rightarrow> string \<Rightarrow> bool" where
  "endsWith s suf = starts_with (rev s) (rev suf)"

text \<open>\<open>s.indexOf(pat)\<close>: the first index at which \<open>pat\<close> occurs in \<open>s\<close>, or \<open>-1\<close>.\<close>

fun index_from :: "string \<Rightarrow> string \<Rightarrow> int \<Rightarrow> int" where
  "index_from [] pat i = (if pat = [] then i else - 1)"
| "index_from (c # cs) pat i = (if starts_with (c # cs) pat then i else index_from cs pat (i + 1))"

definition indexOf :: "string \<Rightarrow> string \<Rightarrow> int" where
  "indexOf s pat = index_from s pat 0"

text \<open>\<open>s.split(sep)\<close> for a one-character separator, and \<open>parts.join(sep)\<close>.\<close>

fun split :: "char \<Rightarrow> string \<Rightarrow> string list" where
  "split sep [] = [[]]"
| "split sep (c # cs) =
     (if c = sep then [] # split sep cs
      else (case split sep cs of [] \<Rightarrow> [[c]] | p # ps \<Rightarrow> (c # p) # ps))"

fun join :: "string \<Rightarrow> string list \<Rightarrow> string" where
  "join sep [] = []"
| "join sep [p] = p"
| "join sep (p # q # ps) = p @ sep @ join sep (q # ps)"

text \<open>\<open>targetLanguage.replace(/-/g, "_")\<close>.\<close>

definition replace_hyphens :: "string \<Rightarrow> string" where
  "replace_hyphens s = map (\<lambda>c. if c = CHR ''-'' then CHR ''_'' else c) s"

text \<open>The decimal numeral a template literal prints for a non-negative counter.\<close>

fun digits_of :: "nat \<Rightarrow> string" where
  "digits_of n =
     (if n < 10 then [char_of (48 + n)] else digits_of (n div 10) @ [char_of (48 + n mod 10)])"

declare digits_of.simps [simp del]

section \<open>Regular expressions with named groups\<close>

text \<open>
  A pattern is embedded as a backtracking matcher: from a state (the groups captured so far and
  the input still to read) it returns every way to go on, in the order in which the JavaScript
  engine tries them (greedy quantifiers first). Both patterns of the class are anchored with
  \<open>^\<close> and \<open>$\<close>: a match starts at the first character and must leave no input.
\<close>

type_synonym groups = "string \<rightharpoonup> string"
type_synonym mstate = "groups \<times> string"
type_synonym matcher = "mstate \<Rightarrow> mstate list"

text \<open>A character class; under the flag \<open>i\<close> a character matches when one of its two cases does.\<close>

definition class_accepts :: "bool \<Rightarrow> (char \<Rightarrow> bool) \<Rightarrow> char \<Rightarrow> bool" where
  "class_accepts ignoreCase P c = (if ignoreCase then P (to_lower c) \<or> P (to_upper c) else P c)"

definition rx_class :: "bool \<Rightarrow> (char \<Rightarrow> bool) \<Rightarrow> matcher" where
  "rx_class ignoreCase P st =
     (case snd st of [] \<Rightarrow> []
      | c # r \<Rightarrow> if class_accepts ignoreCase P c then [(fst st, r)] else [])"

definition rx_seq :: "matcher \<Rightarrow> matcher \<Rightarrow> matcher" where
  "rx_seq a b st = concat (map b (a st))"

definition rx_alt :: "matcher \<Rightarrow> matcher \<Rightarrow> matcher" where
  "rx_alt a b st = a st @ b st"

definition rx_opt :: "matcher \<Rightarrow> matcher" where
  "rx_opt a st = a st @ [st]"

primrec rx_times :: "nat \<Rightarrow> matcher \<Rightarrow> matcher" where
  "rx_times 0 a = (\<lambda>st. [st])"
| "rx_times (Suc n) a = rx_seq a (rx_times n a)"

primrec rx_upto :: "nat \<Rightarrow> matcher \<Rightarrow> matcher" where
  "rx_upto 0 a = (\<lambda>st. [st])"
| "rx_upto (Suc n) a = rx_opt (rx_seq a (rx_upto n a))"

text \<open>The quantifier \<open>{lo,hi}\<close> (greedy); \<open>{n}\<close> is \<open>{n,n}\<close>.\<close>

definition rx_repeat :: "nat \<Rightarrow> nat \<Rightarrow> matcher \<Rightarrow> matcher" where
  "rx_repeat lo hi a = rx_seq (rx_times lo a) (rx_upto (hi - lo) a)"

text \<open>A named group \<open>(?<name>...)\<close> records the input its body consumed.\<close>

definition rx_group :: "string \<Rightarrow> matcher \<Rightarrow> matcher" where
  "rx_group name a st =
     map (\<lambda>(g, r). (g(name \<mapsto> take (length (snd st) - length r) (snd st)), r)) (a st)"

definition rx_exec :: "matcher \<Rightarrow> string \<Rightarrow> groups option" where
  "rx_exec re s = map_option fst (find (\<lambda>st. snd st = []) (re (Map.empty, s)))"

definition rx_test :: "matcher \<Rightarrow> string \<Rightarrow> bool" where
  "rx_test re s = (rx_exec re s \<noteq> None)"

text \<open>
  \<^verbatim>\<open>/^(?<language>[a-z]{2,3})([-|_](?<script>[A-Z][a-z]{3}))?([-|_](?<region>[A-Z]{2,3}|[0-9]{3}))?$/i\<close>
\<close>

definition languageCodeRegex :: matcher where
  "languageCodeRegex =
     rx_seq (rx_group ''language'' (rx_repeat 2 3 (rx_class True (char_range CHR ''a'' CHR ''z''))))
    (rx_seq (rx_opt (rx_seq (rx_class True (one_of ''-|_''))
               (rx_group ''script''
                  (rx_seq (rx_class True (char_range CHR ''A'' CHR ''Z''))
                          (rx_repeat 3 3 (rx_class True (char_range CHR ''a'' CHR ''z'')))))))
            (rx_opt (rx_seq (rx_class True (one_of ''-|_''))
               (rx_group ''region''
                  (rx_alt (rx_repeat 2 3 (rx_class True (char_range CHR ''A'' CHR ''Z'')))
                          (rx_repeat 3 3 (rx_class True (char_range CHR ''0'' CHR ''9''))))))))"

text \<open>
  \<^verbatim>\<open>/^(?<language>[a-z]{2,3})(_(?<script>[A-Z][a-z]{3}))?(_(?<region>[A-Z]{2,3}|[0-9]{3}))?$/\<close>
\<close>

definition arbLanguageCodeRegex :: matcher where
  "arbLanguageCodeRegex =
     rx_seq (rx_group ''language'' (rx_repeat 2 3 (rx_class False (char_range CHR ''a'' CHR ''z''))))
    (rx_seq (rx_opt (rx_seq (rx_class False (one_of ''_''))
               (rx_group ''script''
                  (rx_seq (rx_class False (char_range CHR ''A'' CHR ''Z''))
                          (rx_repeat 3 3 (rx_class False (char_range CHR ''a'' CHR ''z'')))))))
            (rx_opt (rx_seq (rx_class False (one_of ''_''))
               (rx_group ''region''
                  (rx_alt (rx_repeat 2 3 (rx_class False (char_range CHR ''A'' CHR ''Z'')))
                          (rx_repeat 3 3 (rx_class False (char_range CHR ''0'' CHR ''9''))))))))"

section \<open>Language codes\<close>

text \<open>A captured group is used only when it is truthy: defined and not the empty string.\<close>

definition truthy :: "string option \<Rightarrow> bool" where
  "truthy v = (case v of None \<Rightarrow> False | Some s \<Rightarrow> s \<noteq> [])"

definition normalizeLanguageCode :: "string \<Rightarrow> string" where
  "normalizeLanguageCode code =
     (case rx_exec languageCodeRegex code of
        None \<Rightarrow> code
      | Some g \<Rightarrow>
          (let normalized = toLowerCase (the (g ''language''));
               normalized =
                 (if truthy (g ''script'')
                  then normalized @ ''-'' @ toUpperCase (take 1 (the (g ''script'')))
                         @ toLowerCase (drop 1 (the (g ''script'')))
                  else normalized);
               normalized =
                 (if truthy (g ''region'')
                  then normalized @ ''-'' @ toUpperCase (the (g ''region''))
                  else normalized)
           in normalized))"

definition validateLanguageCode :: "string \<Rightarrow> bool" where
  "validateLanguageCode code = (code \<noteq> [] \<and> rx_test languageCodeRegex code)"

text \<open>
  What a language code is made of, in the words of the specification (not of the source): a
  language subtag of two or three letters, an optional script subtag of four letters, an
  optional region subtag of two or three letters or of three digits; a subtag after the
  first follows one separator character. \<open>code_parts seps code lang scr reg\<close> says that
  \<open>code\<close> is made of these parts, with separators taken from \<open>seps\<close>; letters count in
  either case. The theorems below compare the standard pattern with it.
\<close>

definition ascii_letter :: "char \<Rightarrow> bool" where
  "ascii_letter c = (char_range CHR ''a'' CHR ''z'' c \<or> char_range CHR ''A'' CHR ''Z'' c)"

definition ascii_digit :: "char \<Rightarrow> bool" where
  "ascii_digit c = char_range CHR ''0'' CHR ''9'' c"

definition language_subtag :: "string \<Rightarrow> bool" where
  "language_subtag s = (2 \<le> length s \<and> length s \<le> 3 \<and> list_all ascii_letter s)"

definition script_subtag :: "string \<Rightarrow> bool" where
  "script_subtag s = (length s = 4 \<and> list_all ascii_letter s)"

definition region_subtag :: "string \<Rightarrow> bool" where
  "region_subtag s =
     ((2 \<le> length s \<and> length s \<le> 3 \<and> list_all ascii_letter s)
      \<or> (length s = 3 \<and> list_all ascii_digit s))"

definition separated :: "(char \<times> string) option \<Rightarrow> string" where
  "separated part = (case part of None \<Rightarrow> [] | Some (sep, s) \<Rightarrow> sep # s)"

definition code_parts ::
    "string \<Rightarrow> string \<Rightarrow> string \<Rightarrow> (char \<times> string) option \<Rightarrow> (char \<times> string) option \<Rightarrow> bool" where
  "code_parts seps code lang scr reg =
     (language_subtag lang
      \<and> (case scr of None \<Rightarrow> True | Some (sep, s) \<Rightarrow> sep \<in> set seps \<and> script_subtag s)
      \<and> (case reg of None \<Rightarrow> True | Some (sep, s) \<Rightarrow> sep \<in> set seps \<and> region_subtag s)
      \<and> code = lang @ separated scr @ separated reg)"

section \<open>Paths\<close>

text \<open>
  The functions of Node's \<open>path\<close> module the class calls, in their POSIX form (separator
  \<open>/\<close>). \<open>basename\<close> is \<open>path.basename(p)\<close>, \<open>basename_ext\<close> is \<open>path.basename(p, suffix)\<close>.
\<close>

definition basename :: "string \<Rightarrow> string" where
  "basename p =
     rev (takeWhile (\<lambda>c. c \<noteq> CHR ''/'') (dropWhile (\<lambda>c. c = CHR ''/'') (rev p)))"

definition basename_ext :: "string \<Rightarrow> string \<Rightarrow> string" where
  "basename_ext p suffix =
     (if suffix = [] \<or> length p < length suffix then basename p
      else if suffix = p then []
      else (let comp = basename p in
        if comp = [] then p
        else if endsWith comp suffix then
          (if suffix = comp then comp else take (length comp - length suffix) comp)
        else if endsWith suffix comp then
          comp @ takeWhile (\<lambda>c. c = CHR ''/'') (rev p)
        else comp))"

definition extname :: "string \<Rightarrow> string" where
  "extname p =
     (let comp = basename p in
      if CHR ''.'' \<notin> set comp then []
      else (let ext = CHR ''.'' # rev (takeWhile (\<lambda>c. c \<noteq> CHR ''.'') (rev comp));
                pre = take (length comp - length ext) comp
            in if pre = [] then [] else if comp = ''..'' then [] else ext))"

definition dirname :: "string \<Rightarrow> string" where
  "dirname p =
     (if p = [] then ''.''
      else (let hasRoot = (hd p = CHR ''/'');
                upto = dropWhile (\<lambda>c. c \<noteq> CHR ''/'')
                         (dropWhile (\<lambda>c. c = CHR ''/'') (rev (tl p)))
            in if upto = [] then (if hasRoot then ''/'' else ''.'')
               else if hasRoot \<and> length upto = 1 then ''//''
               else take (length upto) p))"

fun normalize_segments :: "bool \<Rightarrow> string list \<Rightarrow> string list \<Rightarrow> string list" where
  "normalize_segments allowAboveRoot [] res = res"
| "normalize_segments allowAboveRoot (seg # segs) res =
     (if seg = [] \<or> seg = ''.'' then normalize_segments allowAboveRoot segs res
      else if seg = ''..'' then
        (if res \<noteq> [] \<and> last res \<noteq> ''..''
         then normalize_segments allowAboveRoot segs (butlast res)
         else if allowAboveRoot then normalize_segments allowAboveRoot segs (res @ [''..''])
         else normalize_segments allowAboveRoot segs res)
      else normalize_segments allowAboveRoot segs (res @ [seg]))"

definition normalize :: "string \<Rightarrow> string" where
  "normalize p =
     (if p = [] then ''.''
      else (let isAbsolute = (hd p = CHR ''/'');
                trailingSeparator = (last p = CHR ''/'');
                res = join ''/'' (normalize_segments (\<not> isAbsolute) (split CHR ''/'' p) [])
            in if res = [] then (if isAbsolute then ''/'' else if trailingSeparator then ''./'' else ''.'')
               else (if isAbsolute then ''/'' else []) @ res
                      @ (if trailingSeparator then ''/'' else [])))"

definition path_join :: "string list \<Rightarrow> string" where
  "path_join args =
     (let parts = filter (\<lambda>a. a \<noteq> []) args
      in if parts = [] then ''.'' else normalize (join ''/'' parts))"

section \<open>The file system\<close>

text \<open>
  The state the \<open>fs\<close> calls read and write: the entries that exist, each under its path, in
  the order a directory listing reports them; the directories that cannot be listed and the
  directories in which nothing can be created (both fail with \<open>EACCES\<close>).
\<close>

datatype node = File | Dir

datatype fs_error = ENOENT | ENOTDIR | EACCES | EEXIST

type_synonym dirent = "string \<times> node"

record filesystem =
  entries :: "(string \<times> node) list"
  unreadable :: "string list"
  write_protected :: "string list"

definition existsSync :: "filesystem \<Rightarrow> string \<Rightarrow> bool" where
  "existsSync fs p = (map_of (entries fs) p \<noteq> None)"

text \<open>\<open>fs.readdirSync(p, { withFileTypes: true })\<close>: the listing, or the error it throws.\<close>

definition readdirSync :: "filesystem \<Rightarrow> string \<Rightarrow> fs_error + dirent list" where
  "readdirSync fs p =
     (case map_of (entries fs) p of
        None \<Rightarrow> Inl ENOENT
      | Some File \<Rightarrow> Inl ENOTDIR
      | Some Dir \<Rightarrow>
          if p \<in> set (unreadable fs) then Inl EACCES
          else Inr (map (\<lambda>(q, k). (basename q, k))
                     (filter (\<lambda>(q, k). q \<noteq> p \<and> dirname q = p) (entries fs))))"

definition isDirectory :: "dirent \<Rightarrow> bool" where
  "isDirectory entry = (snd entry = Dir)"

definition isFile :: "dirent \<Rightarrow> bool" where
  "isFile entry = (snd entry = File)"

text \<open>
  \<open>fs.mkdirSync(p, { recursive: true })\<close> walks the path from its first component to \<open>p\<close>
  itself and creates what is missing; what it had created stays when a later step throws.
\<close>

definition path_prefixes :: "string \<Rightarrow> string list" where
  "path_prefixes p =
     map (\<lambda>k. take k p)
       (filter (\<lambda>k. p ! k = CHR ''/'' \<and> p ! (k - 1) \<noteq> CHR ''/'') [1..<length p]) @ [p]"

fun mkdir_all :: "filesystem \<Rightarrow> string list \<Rightarrow> fs_error option \<times> filesystem" where
  "mkdir_all fs [] = (None, fs)"
| "mkdir_all fs (a # rest) =
     (case map_of (entries fs) a of
        Some Dir \<Rightarrow> mkdir_all fs rest
      | Some File \<Rightarrow> (Some (if rest = [] then EEXIST else ENOTDIR), fs)
      | None \<Rightarrow>
          if dirname a \<in> set (write_protected fs) then (Some EACCES, fs)
          else mkdir_all (fs\<lparr>entries := entries fs @ [(a, Dir)]\<rparr>) rest)"

definition mkdirSync_recursive :: "filesystem \<Rightarrow> string \<Rightarrow> fs_error option \<times> filesystem" where
  "mkdirSync_recursive fs p = mkdir_all fs (path_prefixes p)"

section \<open>Project structure\<close>

datatype ProjectStructureType = FolderBased | FileBased | Unknown

record ProjectStructureInfo =
  type :: ProjectStructureType
  basePath :: string
  sourceLanguage :: "string option"

text \<open>
  The loop of \<open>extractLanguageCodeFromFileName\<close> over the parts of an ARB file name:
  \<open>parts.slice(i).join("_")\<close> for \<open>i = 0, 1, ...\<close>, until one matches.
\<close>

function arb_suffix_loop :: "string list \<Rightarrow> nat \<Rightarrow> string option" where
  "arb_suffix_loop parts i =
     (if i < length parts then
        (let potentialCode = join ''_'' (drop i parts)
         in if rx_test arbLanguageCodeRegex potentialCode then Some potentialCode
            else arb_suffix_loop parts (i + 1))
      else None)"
  by pat_completeness auto
termination
  by (relation "measure (\<lambda>(parts, i). length parts - i)") auto

declare arb_suffix_loop.simps [simp del]

definition extractLanguageCodeFromFileName :: "string \<Rightarrow> bool \<Rightarrow> string option" where
  "extractLanguageCodeFromFileName fileName isArbFile =
     (if isArbFile then arb_suffix_loop (split CHR ''_'' fileName) 0
      else if rx_test languageCodeRegex fileName then Some fileName else None)"

definition detectProjectStructure :: "string \<Rightarrow> ProjectStructureInfo" where
  "detectProjectStructure sourceFilePath =
     (let sourceDir = dirname sourceFilePath;
          sourceFileExt = extname sourceFilePath;
          sourceFileName = basename_ext sourceFilePath sourceFileExt;
          isArbFile = (sourceFileExt = ''.arb'');
          parentDirName = basename sourceDir;
          regex = (if isArbFile then arbLanguageCodeRegex else languageCodeRegex)
      in if rx_test regex parentDirName then
           \<lparr>type = FolderBased, basePath = dirname sourceDir, sourceLanguage = Some parentDirName\<rparr>
         else (let languageCode = extractLanguageCodeFromFileName sourceFileName isArbFile
           in if truthy languageCode then
                \<lparr>type = FileBased, basePath = sourceDir, sourceLanguage = languageCode\<rparr>
              else \<lparr>type = Unknown, basePath = sourceDir, sourceLanguage = None\<rparr>))"

section \<open>Enumerating the languages of a project\<close>

text \<open>
  \<open>languageCodes\<close> is a \<open>Set<string>\<close>: it keeps its members in the order in which they were
  first added, and \<open>Array.from\<close> reads them in that order.
\<close>

definition set_add :: "string list \<Rightarrow> string \<Rightarrow> string list" where
  "set_add codes x = (if x \<in> set codes then codes else codes @ [x])"

definition set_delete :: "string list \<Rightarrow> string \<Rightarrow> string list" where
  "set_delete codes x = filter (\<lambda>y. y \<noteq> x) codes"

text \<open>
  \<open>Array.prototype.sort\<close> with a comparator is stable. The comparator of the source,
  \<open>a.localeCompare(b, undefined, { sensitivity: "base" })\<close>, belongs to the runtime and its
  locale, so it is a parameter \<open>cmp\<close> of the model.
\<close>

fun insert_sorted :: "(string \<Rightarrow> string \<Rightarrow> int) \<Rightarrow> string \<Rightarrow> string list \<Rightarrow> string list" where
  "insert_sorted cmp x [] = [x]"
| "insert_sorted cmp x (y # ys) =
     (if cmp x y \<le> 0 then x # y # ys else y # insert_sorted cmp x ys)"

definition array_sort :: "(string \<Rightarrow> string \<Rightarrow> int) \<Rightarrow> string list \<Rightarrow> string list" where
  "array_sort cmp xs = foldr (insert_sorted cmp) xs []"

datatype warning = Warn string fs_error

definition scan_directories :: "matcher \<Rightarrow> dirent list \<Rightarrow> string list \<Rightarrow> string list" where
  "scan_directories regex ents codes =
     fold (\<lambda>entry codes.
             if isDirectory entry then
               (if rx_test regex (fst entry) then set_add codes (fst entry) else codes)
             else codes) ents codes"

definition scan_files :: "bool \<Rightarrow> string \<Rightarrow> dirent list \<Rightarrow> string list \<Rightarrow> string list" where
  "scan_files isArbFile fileExtension ents codes =
     fold (\<lambda>entry codes.
             if isFile entry \<and> endsWith (fst entry) fileExtension then
               (let fileName = basename_ext (fst entry) fileExtension;
                    languageCode = extractLanguageCodeFromFileName fileName isArbFile
                in if truthy languageCode then set_add codes (the languageCode) else codes)
             else codes) ents codes"

text \<open>The result and what was written with \<open>console.warn\<close>.\<close>

definition detectLanguagesFromProject ::
    "(string \<Rightarrow> string \<Rightarrow> int) \<Rightarrow> filesystem \<Rightarrow> string \<Rightarrow> string list \<times> warning list" where
  "detectLanguagesFromProject cmp fs sourceFilePath =
     (let isArbFile = endsWith sourceFilePath ''.arb'';
          structureInfo = detectProjectStructure sourceFilePath;
          sourceLanguage = sourceLanguage structureInfo;
          (languageCodes, warnings) =
            (if type structureInfo = FolderBased then
               (case readdirSync fs (basePath structureInfo) of
                  Inr ents \<Rightarrow>
                    (scan_directories
                       (if isArbFile then arbLanguageCodeRegex else languageCodeRegex) ents [], [])
                | Inl error \<Rightarrow> ([], [Warn ''Error scanning for language directories:'' error]))
             else if type structureInfo = FileBased then
               (let fileExtension = (if isArbFile then ''.arb'' else ''.json'')
                in case readdirSync fs (basePath structureInfo) of
                     Inr ents \<Rightarrow> (scan_files isArbFile fileExtension ents [], [])
                   | Inl error \<Rightarrow> ([], [Warn ''Error scanning for language files:'' error]))
             else ([], []));
          languageCodes =
            (if truthy sourceLanguage then set_delete languageCodes (the sourceLanguage)
             else languageCodes)
      in (array_sort cmp languageCodes, warnings))"

section \<open>Target paths\<close>

text \<open>The result (a path, or the error \<open>mkdirSync\<close> threw) and the file system afterwards.\<close>

definition generateTargetFilePath ::
    "filesystem \<Rightarrow> string \<Rightarrow> string \<Rightarrow> (fs_error + string) \<times> filesystem" where
  "generateTargetFilePath fs sourceFilePath targetLanguage =
     (let structureInfo = detectProjectStructure sourceFilePath;
          fileExtension = extname sourceFilePath;
          sourceFileName = basename_ext sourceFilePath fileExtension;
          isArbFile = (fileExtension = ''.arb'');
          languageCode = (if isArbFile then replace_hyphens targetLanguage else targetLanguage)
      in case type structureInfo of
           FolderBased \<Rightarrow>
             (let targetDir = path_join [basePath structureInfo, languageCode];
                  (thrown, fs') =
                    (if \<not> existsSync fs targetDir then mkdirSync_recursive fs targetDir
                     else (None, fs))
              in case thrown of
                   Some error \<Rightarrow> (Inl error, fs')
                 | None \<Rightarrow> (Inr (path_join [targetDir, sourceFileName @ fileExtension]), fs'))
         | FileBased \<Rightarrow>
             (if isArbFile then
                (let sourceLanguage = sourceLanguage structureInfo;
                     prefix =
                       (if truthy sourceLanguage then
                          (let langIndex = indexOf sourceFileName (the sourceLanguage)
                           in if langIndex > 0 then take (nat langIndex) sourceFileName else [])
                        else [])
                 in (Inr (path_join [basePath structureInfo,
                            prefix @ languageCode @ fileExtension]), fs))
              else (Inr (path_join [basePath structureInfo, languageCode @ fileExtension]), fs))
         | Unknown \<Rightarrow>
             (let sourceDir = dirname sourceFilePath
              in (Inr (path_join [sourceDir,
                         sourceFileName @ ''.'' @ languageCode @ fileExtension]), fs)))"

text \<open>
  The \<open>do ... while\<close> loop of \<open>getUniqueFilePath\<close>; \<open>None\<close> is the loop that never ends.
\<close>

partial_function (option) unique_loop ::
    "filesystem \<Rightarrow> string \<Rightarrow> string \<Rightarrow> string \<Rightarrow> nat \<Rightarrow> string option" where
  "unique_loop fs dir baseName ext counter =
     (let uniquePath = path_join [dir, baseName @ '' ('' @ digits_of counter @ '')'' @ ext]
      in if existsSync fs uniquePath then unique_loop fs dir baseName ext (counter + 1)
         else Some uniquePath)"

declare unique_loop.simps [code]

definition getUniqueFilePath :: "filesystem \<Rightarrow> string \<Rightarrow> string option" where
  "getUniqueFilePath fs filePath =
     (if \<not> existsSync fs filePath then Some filePath
      else (let dir = dirname filePath;
                ext = extname filePath;
                baseName = basename_ext filePath ext
            in unique_loop fs dir baseName ext 1))"

text \<open>
  A comparator for the examples. With sensitivity \<open>base\<close> the collation compares primary
  weights only, so a letter weighs the same in both cases; of the characters a language
  code is made of, the underscore comes first, then the hyphen, then the bar, then the
  digits, then the letters.
\<close>

fun compare_codes :: "nat list \<Rightarrow> nat list \<Rightarrow> int" where
  "compare_codes [] [] = 0"
| "compare_codes [] (y # ys) = - 1"
| "compare_codes (x # xs) [] = 1"
| "compare_codes (x # xs) (y # ys) =
     (if x < y then - 1 else if y < x then 1 else compare_codes xs ys)"

definition collation_weight :: "char \<Rightarrow> nat" where
  "collation_weight c =
     (if c = CHR ''_'' then 0 else if c = CHR ''-'' then 1 else if c = CHR ''|'' then 2
      else 3 + of_char (to_lower c))"

definition localeCompare_base :: "string \<Rightarrow> string \<Rightarrow> int" where
  "localeCompare_base a b = compare_codes (map collation_weight a) (map collation_weight b)"

section \<open>Facts about the two patterns\<close>

lemma rx_test_Nil_std: "\<not> rx_test languageCodeRegex []"
  by code_simp

lemma rx_test_Nil_arb: "\<not> rx_test arbLanguageCodeRegex []"
  by code_simp

section \<open>Structure detection: the parent folder comes first\<close>

text \<open>
  Claim C1. Whenever the name of the immediate parent directory, \<open>basename (dirname p)\<close>,
  matches the pattern of the active format (the ARB pattern when the extension of \<open>p\<close> is
  \<open>.arb\<close>, the standard pattern otherwise), \<open>detectProjectStructure\<close> answers \<open>FolderBased\<close>
  with the grandparent directory as \<open>basePath\<close> and the parent directory name, exactly as it is
  written, as \<open>sourceLanguage\<close>. Nothing is assumed about the file's own name: the answer is
  the same when that name holds a language code too.
\<close>

theorem folder_based_first:
  assumes "rx_test (if extname p = ''.arb'' then arbLanguageCodeRegex else languageCodeRegex)
             (basename (dirname p))"
  shows "detectProjectStructure p =
           \<lparr>type = FolderBased, basePath = dirname (dirname p),
            sourceLanguage = Some (basename (dirname p))\<rparr>"
  using assms by (simp add: detectProjectStructure_def Let_def)

text \<open>
  At \<open>locales/EN/fr.json\<close> the file name is itself the code \<open>fr\<close>, and the folder wins, in its
  own casing.
\<close>

theorem folder_based_first_witness:
  "extractLanguageCodeFromFileName (basename_ext ''locales/EN/fr.json'' ''.json'') False = Some ''fr''
   \<and> detectProjectStructure ''locales/EN/fr.json'' =
       \<lparr>type = FolderBased, basePath = ''locales'', sourceLanguage = Some ''EN''\<rparr>"
proof -
  have h: "rx_test (if extname ''locales/EN/fr.json'' = ''.arb'' then arbLanguageCodeRegex
                    else languageCodeRegex) (basename (dirname ''locales/EN/fr.json''))"
    by code_simp
  have d: "dirname (dirname ''locales/EN/fr.json'') = ''locales''" by code_simp
  have b: "basename (dirname ''locales/EN/fr.json'') = ''EN''" by code_simp
  have e: "extractLanguageCodeFromFileName (basename_ext ''locales/EN/fr.json'' ''.json'') False
             = Some ''fr''" by code_simp
  from folder_based_first [OF h] e show ?thesis by (simp only: d b simp_thms)
qed

section \<open>Extraction of a language code from an ARB file name\<close>

lemma split_not_Nil: "split sep s \<noteq> []"
  by (induction s) (auto split: list.splits)

lemma join_Cons: "ps \<noteq> [] \<Longrightarrow> join sep (p # ps) = p @ sep @ join sep ps"
  by (cases ps) auto

lemma join_split: "join [sep] (split sep s) = s"
proof (induction s)
  case Nil
  show ?case by simp
next
  case (Cons c cs)
  obtain q qs where q: "split sep cs = q # qs"
    using split_not_Nil [of sep cs] by (cases "split sep cs") auto
  show ?case
  proof (cases "c = sep")
    case True
    then show ?thesis using Cons q by (simp add: join_Cons)
  next
    case False
    then show ?thesis using Cons q by (cases qs) auto
  qed
qed

lemma join_drop_suffix: "\<exists>pre. join sep ps = pre @ join sep (drop k ps)"
proof (induction ps arbitrary: k)
  case Nil
  show ?case by simp
next
  case (Cons p ps)
  show ?case
  proof (cases k)
    case 0
    then show ?thesis by simp
  next
    case (Suc m)
    from Cons obtain pre where pre: "join sep ps = pre @ join sep (drop m ps)" by blast
    show ?thesis
    proof (cases "ps = []")
      case True
      then show ?thesis using Suc by simp
    next
      case False
      then have "join sep (p # ps) = (p @ sep @ pre) @ join sep (drop m ps)"
        using pre by (simp add: join_Cons)
      then show ?thesis using Suc by auto
    qed
  qed
qed

lemma length_join_drop_Suc: "length (join sep (drop (Suc k) ps)) \<le> length (join sep (drop k ps))"
proof (cases "drop k ps")
  case Nil
  then have "drop (Suc k) ps = []" by (metis drop_Suc drop_eq_Nil le_SucI tl_drop)
  then show ?thesis by simp
next
  case (Cons q qs)
  then have "drop (Suc k) ps = qs" by (metis drop_Suc list.sel(3) tl_drop)
  then show ?thesis using Cons by (cases qs) auto
qed

lemma length_join_drop_mono:
  "k \<le> j \<Longrightarrow> length (join sep (drop j ps)) \<le> length (join sep (drop k ps))"
proof (induction j)
  case 0
  then show ?case by simp
next
  case (Suc j)
  show ?case
  proof (cases "k = Suc j")
    case True
    then show ?thesis by simp
  next
    case False
    with Suc have "length (join sep (drop j ps)) \<le> length (join sep (drop k ps))" by simp
    then show ?thesis using length_join_drop_Suc [of sep j ps] by linarith
  qed
qed

lemma arb_suffix_loop_Some:
  "arb_suffix_loop parts i = Some c \<Longrightarrow>
     \<exists>k. i \<le> k \<and> k < length parts \<and> c = join ''_'' (drop k parts)
        \<and> rx_test arbLanguageCodeRegex c
        \<and> (\<forall>j. i \<le> j \<and> j < k \<longrightarrow> \<not> rx_test arbLanguageCodeRegex (join ''_'' (drop j parts)))"
proof (induction parts i rule: arb_suffix_loop.induct)
  case (1 parts i)
  show ?case
  proof (cases "i < length parts")
    case False
    with "1.prems" show ?thesis by (simp add: arb_suffix_loop.simps [of parts i])
  next
    case lt: True
    show ?thesis
    proof (cases "rx_test arbLanguageCodeRegex (join ''_'' (drop i parts))")
      case True
      with lt "1.prems" have "c = join ''_'' (drop i parts)"
        by (simp add: arb_suffix_loop.simps [of parts i])
      with True lt show ?thesis by (intro exI [of _ i]) auto
    next
      case False
      with lt "1.prems" have "arb_suffix_loop parts (i + 1) = Some c"
        by (simp add: arb_suffix_loop.simps [of parts i])
      with "1.IH" [OF lt refl False] obtain k where k:
        "i + 1 \<le> k" "k < length parts" "c = join ''_'' (drop k parts)"
        "rx_test arbLanguageCodeRegex c"
        "\<forall>j. i + 1 \<le> j \<and> j < k \<longrightarrow> \<not> rx_test arbLanguageCodeRegex (join ''_'' (drop j parts))"
        by blast
      have "\<forall>j. i \<le> j \<and> j < k \<longrightarrow> \<not> rx_test arbLanguageCodeRegex (join ''_'' (drop j parts))"
      proof (intro allI impI)
        fix j assume j: "i \<le> j \<and> j < k"
        show "\<not> rx_test arbLanguageCodeRegex (join ''_'' (drop j parts))"
        proof (cases "j = i")
          case True
          then show ?thesis using False by simp
        next
          case False
          with j have "i + 1 \<le> j \<and> j < k" by simp
          with k(5) show ?thesis by blast
        qed
      qed
      with k show ?thesis by (intro exI [of _ k]) auto
    qed
  qed
qed

lemma arb_suffix_loop_None:
  "arb_suffix_loop parts i = None \<longleftrightarrow>
     (\<forall>j. i \<le> j \<and> j < length parts \<longrightarrow> \<not> rx_test arbLanguageCodeRegex (join ''_'' (drop j parts)))"
proof (induction parts i rule: arb_suffix_loop.induct)
  case (1 parts i)
  show ?case
  proof (cases "i < length parts")
    case False
    then show ?thesis by (auto simp add: arb_suffix_loop.simps [of parts i])
  next
    case lt: True
    show ?thesis
    proof (cases "rx_test arbLanguageCodeRegex (join ''_'' (drop i parts))")
      case True
      with lt show ?thesis by (auto simp add: arb_suffix_loop.simps [of parts i])
    next
      case False
      have "(\<forall>j. i \<le> j \<and> j < length parts \<longrightarrow> \<not> rx_test arbLanguageCodeRegex (join ''_'' (drop j parts)))
            \<longleftrightarrow> (\<forall>j. i + 1 \<le> j \<and> j < length parts \<longrightarrow> \<not> rx_test arbLanguageCodeRegex (join ''_'' (drop j parts)))"
        using False by (metis Suc_eq_plus1 Suc_leI le_neq_implies_less order_less_imp_le Suc_le_lessD)
      with "1.IH" [OF lt refl False] lt False show ?thesis
        by (simp add: arb_suffix_loop.simps [of parts i])
    qed
  qed
qed

text \<open>
  Claim C3. For an ARB file name, extraction splits the name on \<open>_\<close> and tries the suffixes
  \<open>join (drop j parts)\<close> of the parts for \<open>j = 0, 1, ...\<close>: the first is the whole name, the
  last is the last part. It returns nothing exactly when no suffix matches the ARB pattern.
  When it returns \<open>c\<close>, then \<open>c\<close> is such a suffix (and so the end of the name), it matches,
  and every matching suffix starts at the same part or later and is no longer than \<open>c\<close>:
  \<open>c\<close> is the first match from the left and the longest one.
\<close>

theorem arb_extraction_longest_suffix:
  "(extractLanguageCodeFromFileName name True = None \<longleftrightarrow>
      (\<forall>j < length (split CHR ''_'' name).
         \<not> rx_test arbLanguageCodeRegex (join ''_'' (drop j (split CHR ''_'' name)))))
   \<and> (\<forall>c. extractLanguageCodeFromFileName name True = Some c \<longrightarrow>
        (\<exists>k < length (split CHR ''_'' name).
           c = join ''_'' (drop k (split CHR ''_'' name))
           \<and> rx_test arbLanguageCodeRegex c
           \<and> (\<exists>pre. name = pre @ c)
           \<and> (\<forall>j < length (split CHR ''_'' name).
                 rx_test arbLanguageCodeRegex (join ''_'' (drop j (split CHR ''_'' name)))
                 \<longrightarrow> k \<le> j \<and> length (join ''_'' (drop j (split CHR ''_'' name))) \<le> length c)))
   \<and> join ''_'' (drop 0 (split CHR ''_'' name)) = name"
proof (intro conjI allI impI)
  show "extractLanguageCodeFromFileName name True = None \<longleftrightarrow>
      (\<forall>j < length (split CHR ''_'' name).
         \<not> rx_test arbLanguageCodeRegex (join ''_'' (drop j (split CHR ''_'' name))))"
    by (simp add: extractLanguageCodeFromFileName_def arb_suffix_loop_None)
next
  fix c assume "extractLanguageCodeFromFileName name True = Some c"
  then have "arb_suffix_loop (split CHR ''_'' name) 0 = Some c"
    by (simp add: extractLanguageCodeFromFileName_def)
  from arb_suffix_loop_Some [OF this] obtain k where k:
    "k < length (split CHR ''_'' name)" "c = join ''_'' (drop k (split CHR ''_'' name))"
    "rx_test arbLanguageCodeRegex c"
    "\<forall>j. j < k \<longrightarrow> \<not> rx_test arbLanguageCodeRegex (join ''_'' (drop j (split CHR ''_'' name)))"
    by auto
  have whole: "join ''_'' (split CHR ''_'' name) = name"
    using join_split [of "CHR ''_''" name] by simp
  have suf: "\<exists>pre. name = pre @ c"
    using join_drop_suffix [of "''_''" "split CHR ''_'' name" k] k(2) whole by simp
  have longest: "\<forall>j < length (split CHR ''_'' name).
                 rx_test arbLanguageCodeRegex (join ''_'' (drop j (split CHR ''_'' name)))
                 \<longrightarrow> k \<le> j \<and> length (join ''_'' (drop j (split CHR ''_'' name))) \<le> length c"
  proof (intro allI impI)
    fix j assume "j < length (split CHR ''_'' name)"
      and m: "rx_test arbLanguageCodeRegex (join ''_'' (drop j (split CHR ''_'' name)))"
    from m k(4) have "k \<le> j" by (meson not_le_imp_less)
    then show "k \<le> j \<and> length (join ''_'' (drop j (split CHR ''_'' name))) \<le> length c"
      using length_join_drop_mono [of k j "''_''" "split CHR ''_'' name"] k(2) by simp
  qed
  from k suf longest
  show "\<exists>k < length (split CHR ''_'' name).
           c = join ''_'' (drop k (split CHR ''_'' name))
           \<and> rx_test arbLanguageCodeRegex c
           \<and> (\<exists>pre. name = pre @ c)
           \<and> (\<forall>j < length (split CHR ''_'' name).
                 rx_test arbLanguageCodeRegex (join ''_'' (drop j (split CHR ''_'' name)))
                 \<longrightarrow> k \<le> j \<and> length (join ''_'' (drop j (split CHR ''_'' name))) \<le> length c)"
    by blast
next
  show "join ''_'' (drop 0 (split CHR ''_'' name)) = name"
    using join_split [of "CHR ''_''" name] by simp
qed

text \<open>The examples of the claim: \<open>app_en_US\<close> gives \<open>en_US\<close>, \<open>my_app_fr\<close> gives \<open>fr\<close>.\<close>

theorem arb_extraction_longest_suffix_witness:
  "extractLanguageCodeFromFileName ''app_en_US'' True = Some ''en_US''
   \<and> extractLanguageCodeFromFileName ''my_app_fr'' True = Some ''fr''
   \<and> extractLanguageCodeFromFileName ''messages'' True = None
   \<and> \<not> rx_test arbLanguageCodeRegex ''app_en_US''
   \<and> join ''_'' (drop 0 (split CHR ''_'' ''app_en_US'')) = ''app_en_US''"
proof -
  have a: "extractLanguageCodeFromFileName ''app_en_US'' True = Some ''en_US''" by code_simp
  have b: "extractLanguageCodeFromFileName ''my_app_fr'' True = Some ''fr''" by code_simp
  have c: "extractLanguageCodeFromFileName ''messages'' True = None" by code_simp
  have d: "\<not> rx_test arbLanguageCodeRegex ''app_en_US''" by code_simp
  from arb_extraction_longest_suffix [of "''app_en_US''"]
  have e: "join ''_'' (drop 0 (split CHR ''_'' ''app_en_US'')) = ''app_en_US''" by blast
  from a b c d e show ?thesis by blast
qed

section \<open>The enumeration of languages\<close>



















lemma truthy_None: "\<not> truthy None"
  by (simp add: truthy_def)

lemma rx_test_not_Nil:
  "rx_test (if isArb then arbLanguageCodeRegex else languageCodeRegex) s \<Longrightarrow> s \<noteq> []"
  using rx_test_Nil_std rx_test_Nil_arb by (auto split: if_splits)

lemma extract_matches:
  assumes "extractLanguageCodeFromFileName f isArb = Some c"
  shows "rx_test (if isArb then arbLanguageCodeRegex else languageCodeRegex) c"
proof (cases isArb)
  case True
  with assms have "arb_suffix_loop (split CHR ''_'' f) 0 = Some c"
    by (simp add: extractLanguageCodeFromFileName_def)
  from arb_suffix_loop_Some [OF this] True show ?thesis by auto
next
  case False
  with assms show ?thesis
    by (auto simp: extractLanguageCodeFromFileName_def split: if_splits)
qed

lemma extract_truthy:
  "truthy (extractLanguageCodeFromFileName f isArb) \<longleftrightarrow> extractLanguageCodeFromFileName f isArb \<noteq> None"
proof (cases "extractLanguageCodeFromFileName f isArb")
  case None
  then show ?thesis by (simp add: truthy_def)
next
  case (Some c)
  from extract_matches [OF Some] rx_test_not_Nil have "c \<noteq> []" by blast
  with Some show ?thesis by (simp add: truthy_def)
qed



lemma type_Unknown_iff:
  "type (detectProjectStructure p) = Unknown \<longleftrightarrow>
     \<not> rx_test (if extname p = ''.arb'' then arbLanguageCodeRegex else languageCodeRegex)
          (basename (dirname p))
     \<and> extractLanguageCodeFromFileName (basename_ext p (extname p)) (extname p = ''.arb'') = None"
  unfolding detectProjectStructure_def Let_def
  by (auto simp: extract_truthy)

lemma sourceLanguage_Unknown:
  "type (detectProjectStructure p) = Unknown \<Longrightarrow> sourceLanguage (detectProjectStructure p) = None"
  unfolding detectProjectStructure_def Let_def
  by (auto split: if_splits)











section \<open>A directory that cannot be read\<close>

text \<open>
  Claim C9. When \<open>readdirSync\<close> throws on the base directory, whatever the error,
  \<open>detectLanguagesFromProject\<close> still returns: its list is empty and the error is written
  once as a warning (with the message of the branch that scanned). The result type holds no
  error: nothing is propagated to the caller.
\<close>

theorem scan_failure_is_caught:
  assumes "readdirSync fs (basePath (detectProjectStructure p)) = Inl e"
  shows "detectLanguagesFromProject cmp fs p =
           ([], case type (detectProjectStructure p) of
                  FolderBased \<Rightarrow> [Warn ''Error scanning for language directories:'' e]
                | FileBased \<Rightarrow> [Warn ''Error scanning for language files:'' e]
                | Unknown \<Rightarrow> [])"
  using assms unfolding detectLanguagesFromProject_def Let_def
  by (cases "type (detectProjectStructure p)")
     (simp_all add: set_delete_def array_sort_def)

text \<open>A base directory without read permission, and a base directory that is not there.\<close>

theorem scan_failure_is_caught_witness:
  "detectLanguagesFromProject localeCompare_base
     \<lparr>entries = [(''locales'', Dir), (''locales/en'', Dir), (''locales/en/common.json'', File),
                 (''locales/fr'', Dir)],
      unreadable = [''locales''], write_protected = []\<rparr>
     ''locales/en/common.json'' = ([], [Warn ''Error scanning for language directories:'' EACCES])
   \<and> detectLanguagesFromProject localeCompare_base
     \<lparr>entries = [], unreadable = [], write_protected = []\<rparr>
     ''i18n/en.json'' = ([], [Warn ''Error scanning for language files:'' ENOENT])"
proof -
  let ?fs = "\<lparr>entries = [(''locales'', Dir), (''locales/en'', Dir),
                          (''locales/en/common.json'', File), (''locales/fr'', Dir)],
               unreadable = [''locales''], write_protected = []\<rparr>"
  let ?fs' = "\<lparr>entries = [], unreadable = [], write_protected = []\<rparr>"
  have a: "readdirSync ?fs (basePath (detectProjectStructure ''locales/en/common.json'')) = Inl EACCES"
    by code_simp
  have t: "type (detectProjectStructure ''locales/en/common.json'') = FolderBased"
    by code_simp
  have a': "readdirSync ?fs' (basePath (detectProjectStructure ''i18n/en.json'')) = Inl ENOENT"
    by code_simp
  have t': "type (detectProjectStructure ''i18n/en.json'') = FileBased"
    by code_simp
  from scan_failure_is_caught [OF a, of localeCompare_base]
       scan_failure_is_caught [OF a', of localeCompare_base]
  show ?thesis by (simp add: t t')
qed

section \<open>Structure detection and the file system\<close>

lemma generateTargetFilePath_FolderBased:
  assumes "type (detectProjectStructure p) = FolderBased"
  shows "generateTargetFilePath fs p t =
     (let code = (if extname p = ''.arb'' then replace_hyphens t else t);
          targetDir = path_join [basePath (detectProjectStructure p), code];
          target = path_join [targetDir, basename_ext p (extname p) @ extname p]
      in if existsSync fs targetDir then (Inr target, fs)
         else (case fst (mkdirSync_recursive fs targetDir) of
                 Some e \<Rightarrow> (Inl e, snd (mkdirSync_recursive fs targetDir))
               | None \<Rightarrow> (Inr target, snd (mkdirSync_recursive fs targetDir))))"
  unfolding generateTargetFilePath_def Let_def
  by (simp add: assms split: prod.splits option.splits)

lemma generateTargetFilePath_FileBased:
  assumes "type (detectProjectStructure p) = FileBased"
  shows "generateTargetFilePath fs p t =
     (let s = detectProjectStructure p;
          ext = extname p;
          name = basename_ext p ext;
          code = (if ext = ''.arb'' then replace_hyphens t else t)
      in (Inr (if ext = ''.arb'' then
                path_join [basePath s,
                  (if truthy (sourceLanguage s) then
                     (if indexOf name (the (sourceLanguage s)) > 0
                      then take (nat (indexOf name (the (sourceLanguage s)))) name else [])
                   else []) @ code @ ext]
              else path_join [basePath s, code @ ext]), fs))"
  unfolding generateTargetFilePath_def Let_def
  by (simp add: assms)

lemma generateTargetFilePath_Unknown:
  assumes "type (detectProjectStructure p) = Unknown"
  shows "generateTargetFilePath fs p t =
     (Inr (path_join [dirname p,
             basename_ext p (extname p) @ ''.''
               @ (if extname p = ''.arb'' then replace_hyphens t else t) @ extname p]), fs)"
  unfolding generateTargetFilePath_def Let_def
  by (simp add: assms)

lemma generateTargetFilePath_same_path:
  assumes a: "fst (generateTargetFilePath fs p t) = Inr path"
      and b: "fst (generateTargetFilePath fs' p t) = Inr path'"
  shows "path = path'"
proof (cases "type (detectProjectStructure p)")
  case FolderBased
  from a have "path = path_join [path_join [basePath (detectProjectStructure p),
                   (if extname p = ''.arb'' then replace_hyphens t else t)],
                 basename_ext p (extname p) @ extname p]"
    unfolding generateTargetFilePath_FolderBased [OF FolderBased] Let_def
    by (simp split: if_splits option.splits)
  moreover from b have "path' = path_join [path_join [basePath (detectProjectStructure p),
                   (if extname p = ''.arb'' then replace_hyphens t else t)],
                 basename_ext p (extname p) @ extname p]"
    unfolding generateTargetFilePath_FolderBased [OF FolderBased] Let_def
    by (simp split: if_splits option.splits)
  ultimately show ?thesis by simp
next
  case FileBased
  from a b show ?thesis
    unfolding generateTargetFilePath_FileBased [OF FileBased] Let_def by simp
next
  case Unknown
  from a b show ?thesis
    unfolding generateTargetFilePath_Unknown [OF Unknown] by simp
qed

text \<open>
  Claim C10. The body of \<open>detectProjectStructure\<close> calls \<open>path\<close> functions and the two
  patterns only, so its embedding has no file system argument: the detected structure is a
  function of the path string. The theorem states what follows for the kind \<open>Unknown\<close> and
  for the operations that do read the file system: the kind is \<open>Unknown\<close> exactly when
  neither the parent directory name nor the file name holds a language code, a condition on
  the path alone; then the enumeration is empty in every file system, whatever siblings it
  holds; and the target path computed for a source path is the same in any two file systems.
\<close>

theorem structure_detection_reads_no_files:
  "(type (detectProjectStructure p) = Unknown \<longleftrightarrow>
      \<not> rx_test (if extname p = ''.arb'' then arbLanguageCodeRegex else languageCodeRegex)
           (basename (dirname p))
      \<and> extractLanguageCodeFromFileName (basename_ext p (extname p)) (extname p = ''.arb'') = None)
   \<and> (type (detectProjectStructure p) = Unknown
        \<longrightarrow> detectLanguagesFromProject cmp fs p = ([], []))
   \<and> (\<forall>path path'. fst (generateTargetFilePath fs p t) = Inr path
          \<and> fst (generateTargetFilePath fs' p t) = Inr path' \<longrightarrow> path = path')"
proof (intro conjI allI impI)
  show "type (detectProjectStructure p) = Unknown \<longleftrightarrow>
      \<not> rx_test (if extname p = ''.arb'' then arbLanguageCodeRegex else languageCodeRegex)
           (basename (dirname p))
      \<and> extractLanguageCodeFromFileName (basename_ext p (extname p)) (extname p = ''.arb'') = None"
    by (rule type_Unknown_iff)
next
  assume u: "type (detectProjectStructure p) = Unknown"
  with sourceLanguage_Unknown [OF u] show "detectLanguagesFromProject cmp fs p = ([], [])"
    unfolding detectLanguagesFromProject_def Let_def
    by (simp add: truthy_def array_sort_def)
next
  fix path path'
  assume "fst (generateTargetFilePath fs p t) = Inr path
          \<and> fst (generateTargetFilePath fs' p t) = Inr path'"
  then have a: "fst (generateTargetFilePath fs p t) = Inr path"
    and b: "fst (generateTargetFilePath fs' p t) = Inr path'"
    by blast+
  show "path = path'"
    by (rule generateTargetFilePath_same_path [OF a b])
qed

text \<open>
  \<open>translations/messages.json\<close> stays \<open>Unknown\<close> beside the language-coded siblings
  \<open>translations/fr.json\<close> and \<open>translations/de\<close>.
\<close>

theorem structure_detection_reads_no_files_witness:
  "type (detectProjectStructure ''translations/messages.json'') = Unknown
   \<and> detectLanguagesFromProject localeCompare_base
       \<lparr>entries = [(''translations'', Dir), (''translations/messages.json'', File),
                   (''translations/fr.json'', File), (''translations/de'', Dir)],
        unreadable = [], write_protected = []\<rparr>
       ''translations/messages.json'' = ([], [])"
proof -
  have u: "type (detectProjectStructure ''translations/messages.json'') = Unknown"
    by code_simp
  note k = structure_detection_reads_no_files
    [where p = "''translations/messages.json''" and cmp = localeCompare_base
       and fs = "\<lparr>entries = [(''translations'', Dir), (''translations/messages.json'', File),
                   (''translations/fr.json'', File), (''translations/de'', Dir)],
        unreadable = [], write_protected = []\<rparr>",
     THEN conjunct2, THEN conjunct1]
  show ?thesis by (rule conjI [OF u mp [OF k u]])
qed

section \<open>Facts about paths\<close>

lemma starts_with_append: "starts_with (x @ y) x"
  by (induction x) auto

lemma starts_with_length: "starts_with s p \<Longrightarrow> length p \<le> length s"
  by (induction s p rule: starts_with.induct) auto

lemma starts_with_iff: "starts_with s p \<longleftrightarrow> (\<exists>r. s = p @ r)"
  by (induction s p rule: starts_with.induct) auto

lemma basename_no_sep: "CHR ''/'' \<notin> set (basename p)"
  unfolding basename_def by (auto dest: set_takeWhileD)

lemma length_basename: "length (basename p) \<le> length p"
proof -
  have "length (takeWhile (\<lambda>c. c \<noteq> CHR ''/'') (dropWhile (\<lambda>c. c = CHR ''/'') (rev p)))
          \<le> length (dropWhile (\<lambda>c. c = CHR ''/'') (rev p))"
    by (rule length_takeWhile_le)
  also have "\<dots> \<le> length (rev p)" by (rule length_dropWhile_le)
  finally show ?thesis by (simp add: basename_def)
qed

text \<open>A component that holds a dot splits at its last dot.\<close>

lemma split_at_last_dot:
  assumes "CHR ''.'' \<in> set nm"
  shows "nm = take (length nm - length (CHR ''.'' # rev (takeWhile (\<lambda>c. c \<noteq> CHR ''.'') (rev nm)))) nm
                  @ CHR ''.'' # rev (takeWhile (\<lambda>c. c \<noteq> CHR ''.'') (rev nm))"
proof -
  let ?tw = "takeWhile (\<lambda>c. c \<noteq> CHR ''.'') (rev nm)"
  let ?dw = "dropWhile (\<lambda>c. c \<noteq> CHR ''.'') (rev nm)"
  from assms have "?dw \<noteq> []" by (simp add: dropWhile_eq_Nil_conv) 
  moreover have "\<not> (hd ?dw \<noteq> CHR ''.'')" if "?dw \<noteq> []"
    using hd_dropWhile [OF that] by simp
  ultimately obtain rest where dw: "?dw = CHR ''.'' # rest"
    by (cases ?dw) auto
  have "rev nm = ?tw @ ?dw" by simp
  then have "rev nm = ?tw @ CHR ''.'' # rest" using dw by simp
  then have "rev (rev nm) = rev (?tw @ CHR ''.'' # rest)" by (rule arg_cong)
  then have c: "nm = rev rest @ CHR ''.'' # rev ?tw" by simp
  have "length nm - length (CHR ''.'' # rev ?tw) = length (rev rest)"
    by (subst c) simp
  moreover have "take (length (rev rest)) nm = rev rest"
    by (subst c) simp
  ultimately show ?thesis using c by simp
qed

lemma extname_cases:
  "extname p = [] \<or>
   (\<exists>pre. pre \<noteq> [] \<and> basename p = pre @ extname p \<and> extname p \<noteq> []
          \<and> pre = take (length (basename p) - length (extname p)) (basename p))"
proof (cases "CHR ''.'' \<in> set (basename p)")
  case False
  then show ?thesis by (simp add: extname_def)
next
  case True
  let ?ext = "CHR ''.'' # rev (takeWhile (\<lambda>c. c \<noteq> CHR ''.'') (rev (basename p)))"
  let ?pre = "take (length (basename p) - length ?ext) (basename p)"
  from split_at_last_dot [OF True] have s: "basename p = ?pre @ ?ext" .
  show ?thesis
  proof (cases "?pre = [] \<or> basename p = ''..''")
    case True
    with \<open>CHR ''.'' \<in> set (basename p)\<close> have "extname p = []"
      unfolding extname_def Let_def by auto
    then show ?thesis by simp
  next
    case False
    with \<open>CHR ''.'' \<in> set (basename p)\<close> have e: "extname p = ?ext"
      unfolding extname_def Let_def by auto
    from False have "?pre \<noteq> []" by simp
    with s e show ?thesis by (intro disjI2 exI [of _ ?pre]) simp
  qed
qed

lemma basename_ext_strip:
  assumes "suf \<noteq> []" and "length suf < length p" and "basename p = pre @ suf" and "pre \<noteq> []"
  shows "basename_ext p suf = pre"
proof -
  have 1: "\<not> (suf = [] \<or> length p < length suf)" using assms(1,2) by simp
  have 2: "suf \<noteq> p" using assms(2) by auto
  have 3: "basename p \<noteq> []" using assms(3,4) by simp
  have 4: "endsWith (basename p) suf"
    unfolding endsWith_def assms(3) by (simp add: starts_with_append)
  have 5: "suf \<noteq> basename p" using assms(3,4) by simp
  have 6: "take (length (basename p) - length suf) (basename p) = pre"
    unfolding assms(3) by simp
  show ?thesis
    unfolding basename_ext_def Let_def
    by (simp only: 1 2 3 4 5 6 if_False if_True)
qed

lemma basename_ext_extname: "basename_ext p (extname p) @ extname p = basename p"
proof -
  from extname_cases [of p] show ?thesis
  proof
    assume "extname p = []"
    then show ?thesis by (simp add: basename_ext_def)
  next
    assume "\<exists>pre. pre \<noteq> [] \<and> basename p = pre @ extname p \<and> extname p \<noteq> []
          \<and> pre = take (length (basename p) - length (extname p)) (basename p)"
    then obtain pre where pre: "pre \<noteq> []" "basename p = pre @ extname p" "extname p \<noteq> []"
      by blast
    have "length (basename p) = length pre + length (extname p)"
      by (subst pre(2)) simp
    with pre(1) have "length (extname p) < length (basename p)" by simp
    with length_basename [of p] have lp: "length (extname p) < length p" by simp
    from basename_ext_strip [OF pre(3) lp pre(2) pre(1)] pre(2) show ?thesis by simp
  qed
qed

lemma extname_no_sep: "CHR ''/'' \<notin> set (extname p)"
  using basename_no_sep [of p] basename_ext_extname [of p]
  by (metis Un_iff set_append)

lemma basename_ext_extname_no_sep: "CHR ''/'' \<notin> set (basename_ext p (extname p))"
  using basename_no_sep [of p] basename_ext_extname [of p]
  by (metis Un_iff set_append)

lemma split_no_sep: "sep \<notin> set s \<Longrightarrow> split sep s = [s]"
  by (induction s) auto

lemma split_append_sep: "split sep (a @ sep # b) = split sep a @ split sep b"
proof (induction a)
  case Nil
  show ?case by simp
next
  case (Cons c cs)
  obtain q qs where q: "split sep cs = q # qs"
    using split_not_Nil [of sep cs] by (cases "split sep cs") auto
  with Cons show ?case by simp
qed

lemma normalize_segments_append:
  "normalize_segments up (xs @ ys) acc =
     normalize_segments up ys (normalize_segments up xs acc)"
proof (induction xs arbitrary: acc)
  case Nil
  show ?case by simp
next
  case (Cons a xs)
  show ?case using Cons.IH by (cases up) auto
qed

lemma join_snoc: "join sep (st @ [seg]) = (if st = [] then seg else join sep st @ sep @ seg)"
proof (induction st)
  case Nil
  show ?case by simp
next
  case (Cons a st)
  show ?case
  proof (cases "st = []")
    case True
    then show ?thesis by simp
  next
    case False
    then have "join sep ((a # st) @ [seg]) = a @ sep @ join sep (st @ [seg])"
      by (simp add: join_Cons)
    with Cons False show ?thesis by (simp add: join_Cons)
  qed
qed

text \<open>
  Joining a directory with one ordinary file name: the result ends with that name, after a
  part that depends on the directory only.
\<close>

lemma path_join_file:
  assumes "dir \<noteq> []"
  shows "\<exists>front. \<forall>seg. seg \<noteq> [] \<and> CHR ''/'' \<notin> set seg \<and> seg \<noteq> ''.'' \<and> seg \<noteq> ''..''
           \<longrightarrow> path_join [dir, seg] = front @ seg"
proof -
  let ?abs = "hd dir = CHR ''/''"
  let ?st = "normalize_segments (\<not> ?abs) (split CHR ''/'' dir) []"
  let ?front = "(if ?abs then ''/'' else []) @ (if ?st = [] then [] else join ''/'' ?st @ ''/'')"
  have "path_join [dir, seg] = ?front @ seg"
    if seg: "seg \<noteq> [] \<and> CHR ''/'' \<notin> set seg \<and> seg \<noteq> ''.'' \<and> seg \<noteq> ''..''" for seg
  proof -
    let ?q = "dir @ CHR ''/'' # seg"
    have j: "path_join [dir, seg] = normalize ?q"
      using assms seg by (simp add: path_join_def)
    have hd: "hd ?q = hd dir" using assms by simp
    have "last ?q = last seg" using seg by simp
    moreover have "last seg \<in> set seg" using seg by simp
    ultimately have tr: "last ?q \<noteq> CHR ''/''" using seg by metis
    have sp: "split CHR ''/'' ?q = split CHR ''/'' dir @ [seg]"
      using seg by (simp add: split_append_sep split_no_sep)
    have ns: "normalize_segments (\<not> ?abs) (split CHR ''/'' ?q) [] = ?st @ [seg]"
      unfolding sp normalize_segments_append using seg by simp
    have res: "join ''/'' (?st @ [seg]) = (if ?st = [] then seg else join ''/'' ?st @ ''/'' @ seg)"
      by (rule join_snoc)
    have ne: "join ''/'' (?st @ [seg]) \<noteq> []"
      unfolding res using seg by simp
    have "normalize ?q = (if ?abs then ''/'' else []) @ join ''/'' (?st @ [seg])"
      unfolding normalize_def Let_def hd ns using tr ne by simp
    with j res show ?thesis by simp
  qed
  then show ?thesis by blast
qed

lemma digits_of_not_Nil: "digits_of n \<noteq> []"
  by (subst digits_of.simps) simp

lemma digit_char_inj:
  "(a :: nat) < 10 \<Longrightarrow> b < 10 \<Longrightarrow> (char_of (48 + a) :: char) = char_of (48 + b) \<Longrightarrow> a = b"
proof -
  assume a: "a < 10" and b: "b < 10" and e: "(char_of (48 + a) :: char) = char_of (48 + b)"
  from e have "(of_char (char_of (48 + a) :: char) :: nat) = of_char (char_of (48 + b) :: char)"
    by simp
  then have "(48 + a) mod 256 = (48 + b) mod 256" by simp
  with a b show "a = b" by simp
qed

lemma digit_char_not_sep: "(a :: nat) < 10 \<Longrightarrow> CHR ''/'' \<noteq> (char_of (48 + a) :: char)"
proof
  assume a: "a < (10 :: nat)" and e: "CHR ''/'' = (char_of (48 + a) :: char)"
  from e have "(of_char (char_of (48 + a) :: char) :: nat) = of_char CHR ''/''" by simp
  then have "(48 + a) mod 256 = 47" by simp
  with a show False by simp
qed

lemma digits_of_no_sep: "CHR ''/'' \<notin> set (digits_of n)"
proof (induction n rule: digits_of.induct)
  case (1 n)
  show ?case
  proof (cases "n < 10")
    case True
    then show ?thesis by (subst digits_of.simps) (simp add: digit_char_not_sep)
  next
    case False
    have "n mod 10 < 10" by simp
    from digit_char_not_sep [OF this] "1" [OF False] False show ?thesis
      by (subst digits_of.simps) simp
  qed
qed

lemma digits_of_inj: "digits_of n = digits_of m \<Longrightarrow> n = m"
proof (induction n arbitrary: m rule: digits_of.induct)
  case (1 n)
  show ?case
  proof (cases "n < 10")
    case n: True
    show ?thesis
    proof (cases "m < 10")
      case True
      with n "1.prems" have "(char_of (48 + n) :: char) = char_of (48 + m)"
        by (simp add: digits_of.simps [of n] digits_of.simps [of m])
      from digit_char_inj [OF n True this] show ?thesis .
    next
      case False
      with n "1.prems" have "digits_of (m div 10) = []"
        by (simp add: digits_of.simps [of n] digits_of.simps [of m])
      with digits_of_not_Nil show ?thesis by blast
    qed
  next
    case n: False
    show ?thesis
    proof (cases "m < 10")
      case True
      with n "1.prems" have "digits_of (n div 10) = []"
        by (simp add: digits_of.simps [of n] digits_of.simps [of m])
      with digits_of_not_Nil show ?thesis by blast
    next
      case False
      with n "1.prems" have e: "digits_of (n div 10) = digits_of (m div 10)"
        and c: "(char_of (48 + n mod 10) :: char) = char_of (48 + m mod 10)"
        by (simp_all add: digits_of.simps [of n] digits_of.simps [of m])
      from "1.IH" [OF n e] have d: "n div 10 = m div 10" .
      have "n mod 10 = m mod 10" by (rule digit_char_inj [OF _ _ c]) simp_all
      with d show ?thesis by (metis div_mult_mod_eq)
    qed
  qed
qed

section \<open>Collision-free paths\<close>

lemma take_not_Nil: "n \<noteq> 0 \<Longrightarrow> xs \<noteq> [] \<Longrightarrow> take n xs \<noteq> []"
  by (cases n; cases xs) simp_all

lemma dirname_Nil: "dirname [] = ''.''"
  by (simp only: dirname_def simp_thms if_True)

lemma dirname_Cons:
  "dirname (c # cs) =
     (if dropWhile (\<lambda>c. c \<noteq> CHR ''/'') (dropWhile (\<lambda>c. c = CHR ''/'') (rev cs)) = []
      then (if c = CHR ''/'' then ''/'' else ''.'')
      else if c = CHR ''/''
               \<and> length (dropWhile (\<lambda>c. c \<noteq> CHR ''/'') (dropWhile (\<lambda>c. c = CHR ''/'') (rev cs))) = 1
           then ''//''
           else take (length (dropWhile (\<lambda>c. c \<noteq> CHR ''/'')
                                (dropWhile (\<lambda>c. c = CHR ''/'') (rev cs)))) (c # cs))"
  by (simp only: dirname_def Let_def list.sel list.distinct if_False)

lemma dirname_not_Nil: "dirname p \<noteq> []"
proof (cases p)
  case Nil
  then show ?thesis by (simp only: dirname_Nil) simp
next
  case (Cons c cs)
  let ?upto = "dropWhile (\<lambda>c. c \<noteq> CHR ''/'') (dropWhile (\<lambda>c. c = CHR ''/'') (rev cs))"
  show ?thesis
  proof (cases "?upto = []")
    case True
    have "dirname p = (if c = CHR ''/'' then ''/'' else ''.'')"
      unfolding Cons dirname_Cons by (simp only: True simp_thms if_True)
    then show ?thesis by (cases "c = CHR ''/''") simp_all
  next
    case u: False
    then have "length ?upto \<noteq> 0" by (simp only: length_0_conv not_False_eq_True)
    then have t: "take (length ?upto) (c # cs) \<noteq> []" by (rule take_not_Nil) simp
    have d: "dirname p = (if c = CHR ''/'' \<and> length ?upto = 1 then ''//''
                          else take (length ?upto) (c # cs))"
      unfolding Cons dirname_Cons by (simp only: u if_False)
    show ?thesis
    proof (cases "c = CHR ''/'' \<and> length ?upto = 1")
      case True
      then show ?thesis unfolding d by (simp only: if_True) simp
    next
      case False
      then have "dirname p = take (length ?upto) (c # cs)" unfolding d by (simp only: if_False)
      with t show ?thesis by (simp only: not_False_eq_True)
    qed
  qed
qed

lemma unique_loop_found:
  assumes "k \<le> n"
      and "\<not> existsSync fs (path_join [dir, base @ '' ('' @ digits_of n @ '')'' @ ext])"
      and "\<forall>m. k \<le> m \<and> m < n \<longrightarrow> existsSync fs (path_join [dir, base @ '' ('' @ digits_of m @ '')'' @ ext])"
  shows "unique_loop fs dir base ext k = Some (path_join [dir, base @ '' ('' @ digits_of n @ '')'' @ ext])"
  using assms
proof (induction "n - k" arbitrary: k)
  case 0
  then have "k = n" by simp
  with "0.prems"(2) show ?case by (subst unique_loop.simps) (simp add: Let_def)
next
  case (Suc d)
  then have lt: "k < n" by simp
  with Suc.prems(3) have ex: "existsSync fs (path_join [dir, base @ '' ('' @ digits_of k @ '')'' @ ext])"
    by simp
  have "unique_loop fs dir base ext (k + 1) = Some (path_join [dir, base @ '' ('' @ digits_of n @ '')'' @ ext])"
  proof (rule Suc.hyps(1))
    show "d = n - (k + 1)" using Suc.hyps(2) by simp
    show "k + 1 \<le> n" using lt by simp
    show "\<not> existsSync fs (path_join [dir, base @ '' ('' @ digits_of n @ '')'' @ ext])"
      by (rule Suc.prems(2))
    show "\<forall>m. k + 1 \<le> m \<and> m < n \<longrightarrow> existsSync fs (path_join [dir, base @ '' ('' @ digits_of m @ '')'' @ ext])"
      using Suc.prems(3) by simp
  qed
  with ex show ?case by (subst unique_loop.simps) (simp add: Let_def)
qed

lemma candidate_inj:
  assumes dir: "dir \<noteq> []" and base: "CHR ''/'' \<notin> set base" and ext: "CHR ''/'' \<notin> set ext"
      and eq: "path_join [dir, base @ '' ('' @ digits_of n @ '')'' @ ext]
             = path_join [dir, base @ '' ('' @ digits_of m @ '')'' @ ext]"
  shows "n = m"
proof -
  from path_join_file [OF dir] obtain front where front:
    "\<And>seg. seg \<noteq> [] \<and> CHR ''/'' \<notin> set seg \<and> seg \<noteq> ''.'' \<and> seg \<noteq> ''..''
        \<Longrightarrow> path_join [dir, seg] = front @ seg"
    by blast
  have ok: "seg \<noteq> [] \<and> CHR ''/'' \<notin> set seg \<and> seg \<noteq> ''.'' \<and> seg \<noteq> ''..''"
    if "seg = base @ '' ('' @ digits_of i @ '')'' @ ext" for seg i
  proof -
    have sp: "CHR '' '' \<in> set seg" using that by simp
    have "CHR ''/'' \<notin> set seg" using that base ext digits_of_no_sep [of i] by simp
    moreover have "seg \<noteq> []" using sp by auto
    moreover have "seg \<noteq> ''.''" using sp by auto
    moreover have "seg \<noteq> ''..''" using sp by auto
    ultimately show ?thesis by simp
  qed
  from eq front [OF ok [OF refl]] front [OF ok [OF refl]]
  have "front @ base @ '' ('' @ digits_of n @ '')'' @ ext
      = front @ base @ '' ('' @ digits_of m @ '')'' @ ext"
    by simp
  then have "digits_of n @ '')'' @ ext = digits_of m @ '')'' @ ext" by simp
  then have "digits_of n = digits_of m" by simp
  then show ?thesis by (rule digits_of_inj)
qed

lemma existsSync_iff: "existsSync fs q \<longleftrightarrow> q \<in> fst ` set (entries fs)"
  by (simp add: existsSync_def map_of_eq_None_iff)

lemma free_candidate:
  assumes dir: "dir \<noteq> []" and base: "CHR ''/'' \<notin> set base" and ext: "CHR ''/'' \<notin> set ext"
  shows "\<exists>n\<ge>1. \<not> existsSync fs (path_join [dir, base @ '' ('' @ digits_of n @ '')'' @ ext])"
proof (rule ccontr)
  let ?cand = "\<lambda>n. path_join [dir, base @ '' ('' @ digits_of n @ '')'' @ ext]"
  assume "\<not> (\<exists>n\<ge>1. \<not> existsSync fs (?cand n))"
  then have "?cand ` {1..} \<subseteq> fst ` set (entries fs)"
    by (auto simp: existsSync_iff)
  then have "finite (?cand ` {1..})" by (rule finite_subset) simp
  moreover have "inj_on ?cand {1..}"
    by (rule inj_onI) (rule candidate_inj [OF dir base ext])
  ultimately have "finite ({1..} :: nat set)" by (rule finite_imageD)
  then show False by (simp add: infinite_Ici)
qed

text \<open>
  Claim C5. If nothing exists at \<open>p\<close>, \<open>getUniqueFilePath\<close> returns \<open>p\<close> itself. Otherwise
  it returns (the loop ends, since a file system holds finitely many entries and the
  candidates are pairwise different) the candidate
  \<open>path.join(dirname p, <baseName> (n)<extension>)\<close> for some \<open>n \<ge> 1\<close> such that nothing
  exists at this candidate and something exists at each candidate with a smaller number:
  the first free candidate in the order 1, 2, 3, ... The result depends on the path and the
  file system only, so a repeated call on an unchanged file system returns the same path.
\<close>

theorem unique_path_is_first_free_candidate:
  "(\<not> existsSync fs p \<longrightarrow> getUniqueFilePath fs p = Some p)
   \<and> (existsSync fs p \<longrightarrow>
        (\<exists>n\<ge>1. getUniqueFilePath fs p =
                   Some (path_join [dirname p,
                           basename_ext p (extname p) @ '' ('' @ digits_of n @ '')'' @ extname p])
              \<and> \<not> existsSync fs (path_join [dirname p,
                           basename_ext p (extname p) @ '' ('' @ digits_of n @ '')'' @ extname p])
              \<and> (\<forall>m. 1 \<le> m \<and> m < n \<longrightarrow>
                    existsSync fs (path_join [dirname p,
                           basename_ext p (extname p) @ '' ('' @ digits_of m @ '')'' @ extname p]))))"
proof (intro conjI impI)
  assume "\<not> existsSync fs p"
  then show "getUniqueFilePath fs p = Some p" by (simp add: getUniqueFilePath_def)
next
  let ?cand = "\<lambda>n. path_join [dirname p,
                  basename_ext p (extname p) @ '' ('' @ digits_of n @ '')'' @ extname p]"
  assume ex: "existsSync fs p"
  have "\<exists>n\<ge>1. \<not> existsSync fs (?cand n)"
    by (rule free_candidate [OF dirname_not_Nil basename_ext_extname_no_sep extname_no_sep])
  then have "\<exists>n. 1 \<le> n \<and> \<not> existsSync fs (?cand n)" by simp
  then obtain n where n: "1 \<le> n \<and> \<not> existsSync fs (?cand n)"
    and least: "\<And>m. m < n \<Longrightarrow> \<not> (1 \<le> m \<and> \<not> existsSync fs (?cand m))"
    using exists_least_iff [of "\<lambda>n. 1 \<le> n \<and> \<not> existsSync fs (?cand n)"] by blast
  have before: "\<forall>m. 1 \<le> m \<and> m < n \<longrightarrow> existsSync fs (?cand m)"
    using least by blast
  from n have "unique_loop fs (dirname p) (basename_ext p (extname p)) (extname p) 1 = Some (?cand n)"
    by (intro unique_loop_found before) simp_all
  with ex have "getUniqueFilePath fs p = Some (?cand n)"
    by (simp add: getUniqueFilePath_def Let_def)
  with n before show "\<exists>n\<ge>1. getUniqueFilePath fs p = Some (?cand n)
              \<and> \<not> existsSync fs (?cand n)
              \<and> (\<forall>m. 1 \<le> m \<and> m < n \<longrightarrow> existsSync fs (?cand m))"
    by blast
qed

text \<open>
  With \<open>i18n/fr.json\<close> and \<open>i18n/fr (1).json\<close> present the answer is \<open>i18n/fr (2).json\<close>;
  the free path \<open>i18n/de.json\<close> is returned as it is.
\<close>

theorem unique_path_is_first_free_candidate_witness:
  "getUniqueFilePath
     \<lparr>entries = [(''i18n'', Dir), (''i18n/en.json'', File), (''i18n/fr.json'', File),
                 (''i18n/fr (1).json'', File)],
      unreadable = [], write_protected = []\<rparr> ''i18n/fr.json'' = Some ''i18n/fr (2).json''
   \<and> getUniqueFilePath
     \<lparr>entries = [(''i18n'', Dir), (''i18n/en.json'', File), (''i18n/fr.json'', File),
                 (''i18n/fr (1).json'', File)],
      unreadable = [], write_protected = []\<rparr> ''i18n/de.json'' = Some ''i18n/de.json''"
proof -
  let ?fs = "\<lparr>entries = [(''i18n'', Dir), (''i18n/en.json'', File), (''i18n/fr.json'', File),
                 (''i18n/fr (1).json'', File)],
      unreadable = [], write_protected = []\<rparr>"
  have a: "getUniqueFilePath ?fs ''i18n/fr.json'' = Some ''i18n/fr (2).json''"
    by code_simp
  have n: "\<not> existsSync ?fs ''i18n/de.json''" by code_simp
  have b: "getUniqueFilePath ?fs ''i18n/de.json'' = Some ''i18n/de.json''"
    by (rule mp [OF unique_path_is_first_free_candidate [THEN conjunct1] n])
  show ?thesis by (rule conjI [OF a b])
qed

section \<open>Target paths of file-based ARB projects\<close>

lemma starts_with_Nil: "starts_with s [] = True"
  by (cases s) simp_all

lemma index_from_first:
  "s = pre @ pat @ suf \<Longrightarrow>
     \<exists>k \<le> length pre. index_from s pat i = i + int k
        \<and> (\<exists>suf'. s = take k s @ pat @ suf')
        \<and> (\<forall>pre' suf'. s = pre' @ pat @ suf' \<longrightarrow> k \<le> length pre')"
proof (induction s arbitrary: pre i)
  case Nil
  then show ?case by simp
next
  case (Cons c cs)
  show ?case
  proof (cases "starts_with (c # cs) pat")
    case True
    then have i0: "index_from (c # cs) pat i = i + int 0" by simp
    from True obtain r where r: "c # cs = take 0 (c # cs) @ pat @ r"
      by (auto simp: starts_with_iff)
    from i0 r show ?thesis by (intro exI [of _ 0]) blast
  next
    case False
    have ne: "q \<noteq> []" if "c # cs = q @ pat @ r" for q r
    proof
      assume "q = []"
      with that have "starts_with (c # cs) pat" by (simp add: starts_with_iff)
      with False show False by simp
    qed
    from ne [OF Cons.prems] obtain pre0 where pre0: "pre = c # pre0" "cs = pre0 @ pat @ suf"
      using Cons.prems by (cases pre) auto
    from Cons.IH [OF pre0(2), of "i + 1"] obtain k suf' where k:
      "k \<le> length pre0" "index_from cs pat (i + 1) = i + 1 + int k"
      "cs = take k cs @ pat @ suf'"
      "\<forall>pre' suf'. cs = pre' @ pat @ suf' \<longrightarrow> k \<le> length pre'"
      by blast
    have min: "\<forall>pre' suf'. c # cs = pre' @ pat @ suf' \<longrightarrow> Suc k \<le> length pre'"
    proof (intro allI impI)
      fix pre' suf' assume d: "c # cs = pre' @ pat @ suf'"
      from ne [OF d] obtain q where q: "pre' = c # q" "cs = q @ pat @ suf'"
        using d by (cases pre') auto
      with k(4) have "k \<le> length q" by blast
      with q show "Suc k \<le> length pre'" by simp
    qed
    have dec: "c # cs = take (Suc k) (c # cs) @ pat @ suf'" using k(3) by simp
    have idx: "index_from (c # cs) pat i = i + int (Suc k)" using False k(2) by simp
    have le: "Suc k \<le> length pre" using k(1) pre0(1) by simp
    from le idx dec min show ?thesis by (intro exI [of _ "Suc k"]) blast
  qed
qed

lemma FileBased_structure:
  assumes "type (detectProjectStructure p) = FileBased"
  shows "basePath (detectProjectStructure p) = dirname p
       \<and> sourceLanguage (detectProjectStructure p)
            = extractLanguageCodeFromFileName (basename_ext p (extname p)) (extname p = ''.arb'')
       \<and> truthy (sourceLanguage (detectProjectStructure p))"
  using assms unfolding detectProjectStructure_def Let_def
  by (simp split: if_splits)

lemma arb_extract_is_suffix:
  assumes "extractLanguageCodeFromFileName name True = Some c"
  shows "\<exists>pre. name = pre @ c"
proof -
  from assms have "arb_suffix_loop (split CHR ''_'' name) 0 = Some c"
    by (simp add: extractLanguageCodeFromFileName_def)
  from arb_suffix_loop_Some [OF this] obtain k where "c = join ''_'' (drop k (split CHR ''_'' name))"
    by blast
  moreover have "join ''_'' (split CHR ''_'' name) = name"
    using join_split [of "CHR ''_''" name] by simp
  ultimately show ?thesis
    using join_drop_suffix [of "''_''" "split CHR ''_'' name" k] by simp
qed

text \<open>
  Claim C2. For a source file that is detected as \<open>FileBased\<close> and has the extension
  \<open>.arb\<close>, a source language \<open>lang\<close> was detected and occurs in the base name of the
  file; write the base name as \<open>pre @ lang @ suf\<close> with \<open>pre\<close> as short as possible, that is,
  \<open>pre\<close> is what stands before the first occurrence of \<open>lang\<close>. Then
  \<open>generateTargetFilePath\<close> returns \<open>path.join(basePath, pre @ token @ extension)\<close>, where
  \<open>token\<close> is the target language with each hyphen replaced by an underscore, and leaves the
  file system as it is.
\<close>

theorem arb_file_based_target:
  assumes "type (detectProjectStructure p) = FileBased" and "extname p = ''.arb''"
  shows "\<exists>lang pre suf.
           sourceLanguage (detectProjectStructure p) = Some lang
         \<and> basename_ext p (extname p) = pre @ lang @ suf
         \<and> (\<forall>pre' suf'. basename_ext p (extname p) = pre' @ lang @ suf'
                \<longrightarrow> length pre \<le> length pre')
         \<and> generateTargetFilePath fs p t =
             (Inr (path_join [basePath (detectProjectStructure p),
                     pre @ map (\<lambda>c. if c = CHR ''-'' then CHR ''_'' else c) t @ extname p]), fs)"
proof -
  let ?s = "detectProjectStructure p"
  let ?name = "basename_ext p (extname p)"
  note fb = FileBased_structure [OF assms(1)]
  from fb [THEN conjunct2, THEN conjunct1] assms(2)
  have src: "sourceLanguage ?s = extractLanguageCodeFromFileName ?name True" by simp
  note tr = fb [THEN conjunct2, THEN conjunct2]
  from tr obtain lang where lang: "sourceLanguage ?s = Some lang"
    by (cases "sourceLanguage ?s") (simp_all add: truthy_def)
  with src have "extractLanguageCodeFromFileName ?name True = Some lang" by simp
  from arb_extract_is_suffix [OF this] obtain pre0 where pre0: "?name = pre0 @ lang @ []" by auto
  from index_from_first [OF this, of 0] obtain k suf where k:
    "k \<le> length pre0"
    "index_from ?name lang 0 = int k" "?name = take k ?name @ lang @ suf"
    "\<forall>pre' suf'. ?name = pre' @ lang @ suf' \<longrightarrow> k \<le> length pre'"
    by auto
  have "length ?name = length pre0 + length lang" by (subst pre0) simp
  with k(1) have kl: "k \<le> length ?name" by simp
  have idx: "indexOf ?name lang = int k" using k(2) by (simp add: indexOf_def)
  have pre: "(if truthy (sourceLanguage ?s) then
                (if indexOf ?name (the (sourceLanguage ?s)) > 0
                 then take (nat (indexOf ?name (the (sourceLanguage ?s)))) ?name else [])
              else []) = take k ?name"
    using tr by (cases "k = 0") (simp_all add: lang idx)
  have arb: "(extname p = ''.arb'') = True" using assms(2) by simp
  have len: "length (take k ?name) = k" using kl by simp
  have gen: "generateTargetFilePath fs p t =
          (Inr (path_join [basePath ?s, take k ?name @ replace_hyphens t @ extname p]), fs)"
    unfolding generateTargetFilePath_FileBased [OF assms(1)] Let_def
    by (simp only: arb if_True pre)
  show ?thesis
  proof (intro exI conjI)
    show "sourceLanguage ?s = Some lang" by (rule lang)
    show "?name = take k ?name @ lang @ suf" by (rule k(3))
    show "\<forall>pre' suf'. ?name = pre' @ lang @ suf' \<longrightarrow> length (take k ?name) \<le> length pre'"
      using k(4) len by simp
    show "generateTargetFilePath fs p t =
             (Inr (path_join [basePath ?s,
                     take k ?name @ map (\<lambda>c. if c = CHR ''-'' then CHR ''_'' else c) t @ extname p]), fs)"
      using gen by (simp add: replace_hyphens_def)
  qed
qed

text \<open>
  The example of the claim: \<open>lib/l10n/app_en_US.arb\<close> and \<open>es\<close> give
  \<open>lib/l10n/app_es.arb\<close>; a target with hyphens is written with underscores.
\<close>

theorem arb_file_based_target_witness:
  "generateTargetFilePath
     \<lparr>entries = [(''lib'', Dir), (''lib/l10n'', Dir), (''lib/l10n/app_en_US.arb'', File)],
      unreadable = [], write_protected = []\<rparr> ''lib/l10n/app_en_US.arb'' ''es''
     = (Inr ''lib/l10n/app_es.arb'',
        \<lparr>entries = [(''lib'', Dir), (''lib/l10n'', Dir), (''lib/l10n/app_en_US.arb'', File)],
         unreadable = [], write_protected = []\<rparr>)
   \<and> fst (generateTargetFilePath
     \<lparr>entries = [], unreadable = [], write_protected = []\<rparr> ''lib/l10n/app_en.arb'' ''zh-Hans-CN'')
     = Inr ''lib/l10n/app_zh_Hans_CN.arb''"
proof -
  let ?fs = "\<lparr>entries = [(''lib'', Dir), (''lib/l10n'', Dir), (''lib/l10n/app_en_US.arb'', File)],
      unreadable = [], write_protected = []\<rparr>"
  have t: "type (detectProjectStructure ''lib/l10n/app_en_US.arb'') = FileBased" by code_simp
  have e: "extname ''lib/l10n/app_en_US.arb'' = ''.arb''" by code_simp
  have a: "fst (generateTargetFilePath ?fs ''lib/l10n/app_en_US.arb'' ''es'')
             = Inr ''lib/l10n/app_es.arb''"
    by code_simp
  from arb_file_based_target [OF t e, of ?fs "''es''"]
  have b: "snd (generateTargetFilePath ?fs ''lib/l10n/app_en_US.arb'' ''es'') = ?fs"
    by (elim exE conjE) (simp only: snd_conv)
  have c: "fst (generateTargetFilePath
     \<lparr>entries = [], unreadable = [], write_protected = []\<rparr> ''lib/l10n/app_en.arb'' ''zh-Hans-CN'')
     = Inr ''lib/l10n/app_zh_Hans_CN.arb''"
    by code_simp
  from a b have d: "generateTargetFilePath ?fs ''lib/l10n/app_en_US.arb'' ''es''
                   = (Inr ''lib/l10n/app_es.arb'', ?fs)"
    by (simp only: prod_eq_iff fst_conv snd_conv simp_thms)
  show ?thesis by (rule conjI [OF d c])
qed

section \<open>Target paths of folder-based projects\<close>

lemma map_of_append_Some:
  "map_of xs q = Some v \<Longrightarrow> map_of (xs @ ys) q = Some v"
  by (simp add: map_add_Some_iff)

lemma mkdir_all_keeps:
  "map_of (entries fs) q = Some v \<Longrightarrow> map_of (entries (snd (mkdir_all fs as))) q = Some v"
proof (induction as arbitrary: fs)
  case Nil
  then show ?case by simp
next
  case (Cons a as)
  show ?case
  proof (cases "map_of (entries fs) a")
    case None
    show ?thesis
    proof (cases "dirname a \<in> set (write_protected fs)")
      case True
      with None Cons.prems show ?thesis by simp
    next
      case False
      have "map_of (entries (fs\<lparr>entries := entries fs @ [(a, Dir)]\<rparr>)) q = Some v"
        using Cons.prems by (simp add: map_of_append_Some)
      from Cons.IH [OF this] None False show ?thesis by simp
    qed
  next
    case (Some k)
    with Cons show ?thesis by (cases k) simp_all
  qed
qed

lemma mkdir_all_creates:
  "fst (mkdir_all fs as) = None \<Longrightarrow>
     \<forall>a \<in> set as. map_of (entries (snd (mkdir_all fs as))) a = Some Dir"
proof (induction as arbitrary: fs)
  case Nil
  show ?case by simp
next
  case (Cons a as)
  show ?case
  proof (cases "map_of (entries fs) a")
    case None
    show ?thesis
    proof (cases "dirname a \<in> set (write_protected fs)")
      case True
      with None Cons.prems show ?thesis by simp
    next
      case False
      let ?fs = "fs\<lparr>entries := entries fs @ [(a, Dir)]\<rparr>"
      from None False have step: "mkdir_all fs (a # as) = mkdir_all ?fs as" by simp
      with Cons.prems have ok: "fst (mkdir_all ?fs as) = None" by simp
      have "map_of (entries ?fs) a = Some Dir" using None by (simp add: map_add_Some_iff)
      from mkdir_all_keeps [OF this] have "map_of (entries (snd (mkdir_all ?fs as))) a = Some Dir" .
      with Cons.IH [OF ok] show ?thesis unfolding step by simp
    qed
  next
    case (Some k)
    show ?thesis
    proof (cases k)
      case File
      with Some Cons.prems show ?thesis by simp
    next
      case Dir
      with Some have step: "mkdir_all fs (a # as) = mkdir_all fs as" by simp
      with Cons.prems have ok: "fst (mkdir_all fs as) = None" by simp
      from Some Dir have "map_of (entries fs) a = Some Dir" by simp
      from mkdir_all_keeps [OF this] have "map_of (entries (snd (mkdir_all fs as))) a = Some Dir" .
      with Cons.IH [OF ok] show ?thesis unfolding step by simp
    qed
  qed
qed

lemma self_in_path_prefixes: "p \<in> set (path_prefixes p)"
  by (simp add: path_prefixes_def)

lemma FolderBased_structure:
  assumes "type (detectProjectStructure p) = FolderBased"
  shows "basePath (detectProjectStructure p) = dirname (dirname p)
       \<and> sourceLanguage (detectProjectStructure p) = Some (basename (dirname p))"
  using assms unfolding detectProjectStructure_def Let_def
  by (simp split: if_splits)

lemma map_of_snoc_File:
  "map_of (xs @ [(a, Dir)]) b = Some File \<Longrightarrow> map_of xs b = Some File"
  by (cases "map_of xs b") (auto simp: map_add_def split: if_splits)

lemma mkdir_all_succeeds:
  "\<forall>a \<in> set as. map_of (entries fs) a \<noteq> Some File \<and> dirname a \<notin> set (write_protected fs)
     \<Longrightarrow> fst (mkdir_all fs as) = None"
proof (induction as arbitrary: fs)
  case Nil
  show ?case by (simp only: mkdir_all.simps fst_conv)
next
  case (Cons a as)
  have mem: "a \<in> set (a # as)" by (simp only: list.set insertI1)
  from Cons.prems [THEN bspec, OF mem]
  have a1: "map_of (entries fs) a \<noteq> Some File"
    and a2: "dirname a \<notin> set (write_protected fs)"
    by (rule conjunct1, rule conjunct2)
  have rest: "\<forall>b \<in> set as. map_of (entries fs) b \<noteq> Some File
                 \<and> dirname b \<notin> set (write_protected fs)"
  proof
    fix b assume "b \<in> set as"
    then have "b \<in> set (a # as)" by (rule list.set_intros(2))
    from Cons.prems [THEN bspec, OF this]
    show "map_of (entries fs) b \<noteq> Some File \<and> dirname b \<notin> set (write_protected fs)" .
  qed
  show ?case
  proof (cases "map_of (entries fs) a")
    case None
    let ?fs = "fs\<lparr>entries := entries fs @ [(a, Dir)]\<rparr>"
    have e: "entries ?fs = entries fs @ [(a, Dir)]" and w: "write_protected ?fs = write_protected fs"
      by simp_all
    have "\<forall>b \<in> set as. map_of (entries ?fs) b \<noteq> Some File
             \<and> dirname b \<notin> set (write_protected ?fs)"
    proof
      fix b assume b: "b \<in> set as"
      from rest [THEN bspec, OF b]
      have b1: "map_of (entries fs) b \<noteq> Some File"
        and b2: "dirname b \<notin> set (write_protected fs)"
        by (rule conjunct1, rule conjunct2)
      from b1 map_of_snoc_File [of "entries fs" a b]
      have nf: "map_of (entries fs @ [(a, Dir)]) b \<noteq> Some File" by blast
      from nf b2 show "map_of (entries ?fs) b \<noteq> Some File
             \<and> dirname b \<notin> set (write_protected ?fs)"
        unfolding e w by (rule conjI)
    qed
    from Cons.IH [OF this] have ih: "fst (mkdir_all ?fs as) = None" .
    have "mkdir_all fs (a # as) = mkdir_all ?fs as"
      by (simp only: mkdir_all.simps None option.case a2 if_False)
    with ih show ?thesis by (simp only:)
  next
    case (Some k)
    with a1 have k: "k = Dir" by (cases k) simp_all
    have "mkdir_all fs (a # as) = mkdir_all fs as"
      by (simp only: mkdir_all.simps Some k option.case node.case)
    with Cons.IH [OF rest] show ?thesis by (simp only:)
  qed
qed

lemma folder_step:
  assumes r: "r = (if existsSync fs dir then (Inr target, fs)
                   else (case fst (mkdirSync_recursive fs dir) of
                           Some e \<Rightarrow> (Inl e, snd (mkdirSync_recursive fs dir))
                         | None \<Rightarrow> (Inr target, snd (mkdirSync_recursive fs dir))))"
  shows "(existsSync fs dir \<longrightarrow> r = (Inr target, fs))
       \<and> (\<not> existsSync fs dir \<and> fst (mkdirSync_recursive fs dir) = None
            \<longrightarrow> r = (Inr target, snd (mkdirSync_recursive fs dir))
              \<and> map_of (entries (snd (mkdirSync_recursive fs dir))) dir = Some Dir
              \<and> (\<forall>a \<in> set (path_prefixes dir).
                    map_of (entries (snd (mkdirSync_recursive fs dir))) a = Some Dir))
       \<and> (\<forall>e. \<not> existsSync fs dir \<and> fst (mkdirSync_recursive fs dir) = Some e
            \<longrightarrow> r = (Inl e, snd (mkdirSync_recursive fs dir)))
       \<and> (\<forall>path fs'. r = (Inr path, fs') \<longrightarrow> path = target)
       \<and> ((\<forall>a \<in> set (path_prefixes dir).
              map_of (entries fs) a \<noteq> Some File \<and> dirname a \<notin> set (write_protected fs))
            \<longrightarrow> fst (mkdirSync_recursive fs dir) = None)
       \<and> (\<forall>q v. map_of (entries fs) q = Some v \<longrightarrow> map_of (entries (snd r)) q = Some v)"
proof -
  have 1: "existsSync fs dir \<longrightarrow> r = (Inr target, fs)"
    unfolding r by simp
  have 2: "\<not> existsSync fs dir \<and> fst (mkdirSync_recursive fs dir) = None
            \<longrightarrow> r = (Inr target, snd (mkdirSync_recursive fs dir))
              \<and> map_of (entries (snd (mkdirSync_recursive fs dir))) dir = Some Dir
              \<and> (\<forall>a \<in> set (path_prefixes dir).
                    map_of (entries (snd (mkdirSync_recursive fs dir))) a = Some Dir)"
  proof (intro impI conjI)
    assume a: "\<not> existsSync fs dir \<and> fst (mkdirSync_recursive fs dir) = None"
    then show "r = (Inr target, snd (mkdirSync_recursive fs dir))" unfolding r by simp
    from a have ok: "fst (mkdir_all fs (path_prefixes dir)) = None"
      by (simp add: mkdirSync_recursive_def)
    from mkdir_all_creates [OF ok]
    show all: "\<forall>a \<in> set (path_prefixes dir).
            map_of (entries (snd (mkdirSync_recursive fs dir))) a = Some Dir"
      by (simp add: mkdirSync_recursive_def)
    from all self_in_path_prefixes [of dir]
    show "map_of (entries (snd (mkdirSync_recursive fs dir))) dir = Some Dir" by blast
  qed
  have 3: "\<forall>e. \<not> existsSync fs dir \<and> fst (mkdirSync_recursive fs dir) = Some e
            \<longrightarrow> r = (Inl e, snd (mkdirSync_recursive fs dir))"
    unfolding r by simp
  have 6: "\<forall>path fs'. r = (Inr path, fs') \<longrightarrow> path = target"
    unfolding r by (simp split: option.splits)
  have 4: "(\<forall>a \<in> set (path_prefixes dir).
              map_of (entries fs) a \<noteq> Some File \<and> dirname a \<notin> set (write_protected fs))
            \<longrightarrow> fst (mkdirSync_recursive fs dir) = None"
    unfolding mkdirSync_recursive_def by (intro impI) (rule mkdir_all_succeeds)
  have 5: "\<forall>q v. map_of (entries fs) q = Some v \<longrightarrow> map_of (entries (snd r)) q = Some v"
    unfolding r mkdirSync_recursive_def
    by (simp add: mkdir_all_keeps split: option.splits)
  from 1 2 3 6 4 5 show ?thesis by (intro conjI)
qed

text \<open>
  Claim C6, as the code has it. Let the source file be detected as \<open>FolderBased\<close>, let
  \<open>token\<close> be the target language (hyphens replaced by underscores for \<open>.arb\<close>), let
  \<open>targetDir = path.join(basePath, token)\<close> and \<open>target = path.join(targetDir, basename p)\<close>,
  the base name and the extension of the source file unchanged.
  \<^item> If something exists at \<open>targetDir\<close>, a directory or not, nothing is created: the
    result is \<open>target\<close> and the file system is unchanged (an existing directory is not an
    error).
  \<^item> If nothing exists there, \<open>mkdirSync\<close> runs. When it succeeds, the result is \<open>target\<close>
    in the file system \<open>mkdirSync\<close> leaves, in which \<open>targetDir\<close> and every path prefix of
    it are directories. When it throws, its error is the result, in the file system it
    leaves, and no path is returned.
  \<^item> Every path that is returned is \<open>target\<close>.
  \<^item> \<open>mkdirSync\<close> succeeds whenever no path prefix of \<open>targetDir\<close> is a regular file and
    none lies in a write-protected directory.
  \<^item> Every entry that existed before the call is still there after it.
\<close>

theorem folder_based_target:
  assumes "type (detectProjectStructure p) = FolderBased"
  shows "(existsSync fs (path_join [basePath (detectProjectStructure p),
                           if extname p = ''.arb'' then replace_hyphens t else t])
            \<longrightarrow> generateTargetFilePath fs p t =
                  (Inr (path_join [path_join [basePath (detectProjectStructure p),
                                     if extname p = ''.arb'' then replace_hyphens t else t],
                                   basename p]), fs))
       \<and> (\<not> existsSync fs (path_join [basePath (detectProjectStructure p),
                           if extname p = ''.arb'' then replace_hyphens t else t])
          \<and> fst (mkdirSync_recursive fs (path_join [basePath (detectProjectStructure p),
                           if extname p = ''.arb'' then replace_hyphens t else t])) = None
            \<longrightarrow> generateTargetFilePath fs p t =
                  (Inr (path_join [path_join [basePath (detectProjectStructure p),
                                     if extname p = ''.arb'' then replace_hyphens t else t],
                                   basename p]),
                   snd (mkdirSync_recursive fs (path_join [basePath (detectProjectStructure p),
                           if extname p = ''.arb'' then replace_hyphens t else t])))
              \<and> map_of (entries (snd (mkdirSync_recursive fs
                    (path_join [basePath (detectProjectStructure p),
                       if extname p = ''.arb'' then replace_hyphens t else t]))))
                    (path_join [basePath (detectProjectStructure p),
                       if extname p = ''.arb'' then replace_hyphens t else t]) = Some Dir
              \<and> (\<forall>a \<in> set (path_prefixes (path_join [basePath (detectProjectStructure p),
                                     if extname p = ''.arb'' then replace_hyphens t else t])).
                    map_of (entries (snd (mkdirSync_recursive fs
                      (path_join [basePath (detectProjectStructure p),
                         if extname p = ''.arb'' then replace_hyphens t else t])))) a = Some Dir))
       \<and> (\<forall>e. \<not> existsSync fs (path_join [basePath (detectProjectStructure p),
                           if extname p = ''.arb'' then replace_hyphens t else t])
          \<and> fst (mkdirSync_recursive fs (path_join [basePath (detectProjectStructure p),
                           if extname p = ''.arb'' then replace_hyphens t else t])) = Some e
            \<longrightarrow> generateTargetFilePath fs p t =
                  (Inl e, snd (mkdirSync_recursive fs (path_join [basePath (detectProjectStructure p),
                           if extname p = ''.arb'' then replace_hyphens t else t]))))
       \<and> (\<forall>path fs'. generateTargetFilePath fs p t = (Inr path, fs')
            \<longrightarrow> path = path_join [path_join [basePath (detectProjectStructure p),
                                     if extname p = ''.arb'' then replace_hyphens t else t],
                                   basename p])
       \<and> ((\<forall>a \<in> set (path_prefixes (path_join [basePath (detectProjectStructure p),
                                     if extname p = ''.arb'' then replace_hyphens t else t])).
              map_of (entries fs) a \<noteq> Some File \<and> dirname a \<notin> set (write_protected fs))
            \<longrightarrow> fst (mkdirSync_recursive fs (path_join [basePath (detectProjectStructure p),
                           if extname p = ''.arb'' then replace_hyphens t else t])) = None)
       \<and> (\<forall>q v. map_of (entries fs) q = Some v
            \<longrightarrow> map_of (entries (snd (generateTargetFilePath fs p t))) q = Some v)"
proof (rule folder_step)
  show "generateTargetFilePath fs p t =
     (if existsSync fs (path_join [basePath (detectProjectStructure p),
                          if extname p = ''.arb'' then replace_hyphens t else t])
      then (Inr (path_join [path_join [basePath (detectProjectStructure p),
                               if extname p = ''.arb'' then replace_hyphens t else t],
                            basename p]), fs)
      else (case fst (mkdirSync_recursive fs (path_join [basePath (detectProjectStructure p),
                          if extname p = ''.arb'' then replace_hyphens t else t])) of
              Some e \<Rightarrow> (Inl e, snd (mkdirSync_recursive fs (path_join [basePath (detectProjectStructure p),
                          if extname p = ''.arb'' then replace_hyphens t else t])))
            | None \<Rightarrow> (Inr (path_join [path_join [basePath (detectProjectStructure p),
                               if extname p = ''.arb'' then replace_hyphens t else t],
                            basename p]),
                       snd (mkdirSync_recursive fs (path_join [basePath (detectProjectStructure p),
                          if extname p = ''.arb'' then replace_hyphens t else t])))))"
    by (rule generateTargetFilePath_FolderBased [OF assms, of fs t, unfolded Let_def basename_ext_extname])
qed

text \<open>
  The claim as it is written (the directory \<open>basePath/<token>\<close> exists after every call, and
  every call returns a path) fails in two situations. With a regular file at \<open>locales/fr\<close>,
  \<open>existsSync\<close> is true, nothing is created, the path \<open>locales/fr/common.json\<close> is returned
  and \<open>locales/fr\<close> is still a file. With a write-protected \<open>locales\<close>, \<open>mkdirSync\<close> throws
  and no path is returned.
\<close>

theorem folder_based_target_counterexample:
  "type (detectProjectStructure ''locales/en/common.json'') = FolderBased
   \<and> generateTargetFilePath
       \<lparr>entries = [(''locales'', Dir), (''locales/en'', Dir), (''locales/en/common.json'', File),
                   (''locales/fr'', File)],
        unreadable = [], write_protected = []\<rparr> ''locales/en/common.json'' ''fr''
     = (Inr ''locales/fr/common.json'',
        \<lparr>entries = [(''locales'', Dir), (''locales/en'', Dir), (''locales/en/common.json'', File),
                   (''locales/fr'', File)],
         unreadable = [], write_protected = []\<rparr>)
   \<and> map_of [(''locales'', Dir), (''locales/en'', Dir), (''locales/en/common.json'', File),
              (''locales/fr'', File)] ''locales/fr'' = Some File
   \<and> generateTargetFilePath
       \<lparr>entries = [(''locales'', Dir), (''locales/en'', Dir), (''locales/en/common.json'', File)],
        unreadable = [], write_protected = [''locales'']\<rparr> ''locales/en/common.json'' ''fr''
     = (Inl EACCES,
        \<lparr>entries = [(''locales'', Dir), (''locales/en'', Dir), (''locales/en/common.json'', File)],
         unreadable = [], write_protected = [''locales'']\<rparr>)"
proof (intro conjI)
  show "type (detectProjectStructure ''locales/en/common.json'') = FolderBased"
    by code_simp
  show "generateTargetFilePath
       \<lparr>entries = [(''locales'', Dir), (''locales/en'', Dir), (''locales/en/common.json'', File),
                   (''locales/fr'', File)],
        unreadable = [], write_protected = []\<rparr> ''locales/en/common.json'' ''fr''
     = (Inr ''locales/fr/common.json'',
        \<lparr>entries = [(''locales'', Dir), (''locales/en'', Dir), (''locales/en/common.json'', File),
                   (''locales/fr'', File)],
         unreadable = [], write_protected = []\<rparr>)"
    by code_simp
  show "map_of [(''locales'', Dir), (''locales/en'', Dir), (''locales/en/common.json'', File),
              (''locales/fr'', File)] ''locales/fr'' = Some File"
    by code_simp
  show "generateTargetFilePath
       \<lparr>entries = [(''locales'', Dir), (''locales/en'', Dir), (''locales/en/common.json'', File)],
        unreadable = [], write_protected = [''locales'']\<rparr> ''locales/en/common.json'' ''fr''
     = (Inl EACCES,
        \<lparr>entries = [(''locales'', Dir), (''locales/en'', Dir), (''locales/en/common.json'', File)],
         unreadable = [], write_protected = [''locales'']\<rparr>)"
    by code_simp
qed

text \<open>
  The usual case: \<open>locales/fr\<close> is missing, is created, and \<open>locales/fr/common.json\<close> is
  returned.
\<close>

theorem folder_based_target_witness:
  "generateTargetFilePath
     \<lparr>entries = [(''locales'', Dir), (''locales/en'', Dir), (''locales/en/common.json'', File)],
      unreadable = [], write_protected = []\<rparr> ''locales/en/common.json'' ''fr''
   = (Inr ''locales/fr/common.json'',
      \<lparr>entries = [(''locales'', Dir), (''locales/en'', Dir), (''locales/en/common.json'', File),
                  (''locales/fr'', Dir)],
       unreadable = [], write_protected = []\<rparr>)
   \<and> map_of [(''locales'', Dir), (''locales/en'', Dir), (''locales/en/common.json'', File),
              (''locales/fr'', Dir)] ''locales/fr'' = Some Dir"
proof -
  let ?p = "''locales/en/common.json''"
  let ?fs = "\<lparr>entries = [(''locales'', Dir), (''locales/en'', Dir),
                          (''locales/en/common.json'', File)],
               unreadable = [], write_protected = []\<rparr>"
  let ?fs' = "\<lparr>entries = [(''locales'', Dir), (''locales/en'', Dir),
                           (''locales/en/common.json'', File), (''locales/fr'', Dir)],
                unreadable = [], write_protected = []\<rparr>"
  have t: "type (detectProjectStructure ?p) = FolderBased" by code_simp
  have d: "path_join [basePath (detectProjectStructure ?p),
             if extname ?p = ''.arb'' then replace_hyphens ''fr'' else ''fr''] = ''locales/fr''"
    by code_simp
  have tg: "path_join [''locales/fr'', basename ?p] = ''locales/fr/common.json''" by code_simp
  have n: "\<not> existsSync ?fs ''locales/fr''" by code_simp
  have pre: "\<forall>a \<in> set (path_prefixes ''locales/fr'').
               map_of (entries ?fs) a \<noteq> Some File \<and> dirname a \<notin> set (write_protected ?fs)"
    by code_simp
  have sm: "snd (mkdirSync_recursive ?fs ''locales/fr'') = ?fs'" by code_simp
  note th = folder_based_target [OF t, of ?fs "''fr''", unfolded d tg]
  from th [THEN conjunct2, THEN conjunct2, THEN conjunct2, THEN conjunct2, THEN conjunct1,
           THEN mp, OF pre]
  have ok: "fst (mkdirSync_recursive ?fs ''locales/fr'') = None" .
  from th [THEN conjunct2, THEN conjunct1, THEN mp, OF conjI [OF n ok]]
  have r: "generateTargetFilePath ?fs ?p ''fr'' = (Inr ''locales/fr/common.json'', ?fs')"
    and m: "map_of (entries ?fs') ''locales/fr'' = Some Dir"
    unfolding sm by blast+
  from m have m': "map_of [(''locales'', Dir), (''locales/en'', Dir), (''locales/en/common.json'', File),
              (''locales/fr'', Dir)] ''locales/fr'' = Some Dir"
    by (simp only: filesystem.simps)
  show ?thesis by (rule conjI [OF r m'])
qed

section \<open>Characters and case\<close>

lemma of_char_to_lower:
  "(of_char (to_lower c) :: nat) =
     (if 65 \<le> (of_char c :: nat) \<and> (of_char c :: nat) \<le> 90 then of_char c + 32 else of_char c)"
  by (simp add: to_lower_def char_range_def)

lemma of_char_lt: "(of_char c :: nat) < 256"
proof -
  have "(of_char c :: nat) mod 256 < 256" by (rule mod_less_divisor) simp
  then show ?thesis by simp
qed

lemma of_char_to_upper:
  "(of_char (to_upper c) :: nat) =
     (if 97 \<le> (of_char c :: nat) \<and> (of_char c :: nat) \<le> 122 then of_char c - 32 else of_char c)"
proof (cases "97 \<le> (of_char c :: nat) \<and> (of_char c :: nat) \<le> 122")
  case True
  then have u: "to_upper c = char_of ((of_char c :: nat) - 32)"
    by (simp add: to_upper_def char_range_def)
  have "(of_char c :: nat) - 32 < 256" using of_char_lt [of c] by linarith
  then have "((of_char c :: nat) - 32) mod 256 = of_char c - 32" by (rule mod_less)
  with True show ?thesis unfolding u by simp
next
  case False
  then have "to_upper c = c" by (auto simp add: to_upper_def char_range_def)
  with False show ?thesis by auto
qed

lemma accepts_lower_range: "class_accepts True (char_range CHR ''a'' CHR ''z'') c = ascii_letter c"
  by (auto simp: class_accepts_def char_range_def ascii_letter_def of_char_to_lower of_char_to_upper)

lemma accepts_upper_range: "class_accepts True (char_range CHR ''A'' CHR ''Z'') c = ascii_letter c"
  by (auto simp: class_accepts_def char_range_def ascii_letter_def of_char_to_lower of_char_to_upper)

lemma accepts_digit_range: "class_accepts True (char_range CHR ''0'' CHR ''9'') c = ascii_digit c"
  by (auto simp: class_accepts_def char_range_def ascii_digit_def of_char_to_lower of_char_to_upper)


lemma to_lower_cases: "to_lower c = c \<or> char_range CHR ''a'' CHR ''z'' (to_lower c)"
  by (auto simp: to_lower_def char_range_def)

lemma to_upper_cases: "to_upper c = c \<or> char_range CHR ''A'' CHR ''Z'' (to_upper c)"
  using of_char_lt [of c] by (auto simp: to_upper_def char_range_def)

lemma separator_not_letter:
  "c \<in> set ''-|_'' \<Longrightarrow> \<not> ascii_letter c"
  by (auto simp: ascii_letter_def char_range_def)

lemma accepts_separators: "class_accepts True (one_of ''-|_'') c = (c \<in> set ''-|_'')"
proof
  assume "class_accepts True (one_of ''-|_'') c"
  then have "to_lower c \<in> set ''-|_'' \<or> to_upper c \<in> set ''-|_''"
    by (simp add: class_accepts_def one_of_def)
  then show "c \<in> set ''-|_''"
  proof
    assume a: "to_lower c \<in> set ''-|_''"
    then have "\<not> char_range CHR ''a'' CHR ''z'' (to_lower c)"
      using separator_not_letter by (auto simp: ascii_letter_def)
    with to_lower_cases [of c] have "to_lower c = c" by blast
    with a show ?thesis by simp
  next
    assume a: "to_upper c \<in> set ''-|_''"
    then have "\<not> char_range CHR ''A'' CHR ''Z'' (to_upper c)"
      using separator_not_letter by (auto simp: ascii_letter_def)
    with to_upper_cases [of c] have "to_upper c = c" by blast
    with a show ?thesis by simp
  qed
next
  assume a: "c \<in> set ''-|_''"
  then have "\<not> char_range CHR ''A'' CHR ''Z'' c"
    using separator_not_letter by (auto simp: ascii_letter_def)
  then have "to_lower c = c" by (simp add: to_lower_def)
  with a show "class_accepts True (one_of ''-|_'') c"
    by (simp add: class_accepts_def one_of_def)
qed

section \<open>What the matchers accept\<close>

lemma in_rx_class:
  "x \<in> set (rx_class ic P (g, s)) \<longleftrightarrow> (\<exists>c r. s = c # r \<and> class_accepts ic P c \<and> x = (g, r))"
  by (cases s) (auto simp: rx_class_def)

lemma in_rx_seq: "x \<in> set (rx_seq a b st) \<longleftrightarrow> (\<exists>m \<in> set (a st). x \<in> set (b m))"
  by (auto simp: rx_seq_def)

lemma in_rx_alt: "x \<in> set (rx_alt a b st) \<longleftrightarrow> x \<in> set (a st) \<or> x \<in> set (b st)"
  by (auto simp: rx_alt_def)

lemma in_rx_opt: "x \<in> set (rx_opt a st) \<longleftrightarrow> x \<in> set (a st) \<or> x = st"
  by (auto simp: rx_opt_def)

lemma in_rx_group:
  "(g', r) \<in> set (rx_group name a (g, s)) \<longleftrightarrow>
     (\<exists>g0. (g0, r) \<in> set (a (g, s)) \<and> g' = g0(name \<mapsto> take (length s - length r) s))"
  by (auto simp: rx_group_def)

text \<open>A fixed number of characters of one class, and at most so many.\<close>

lemma in_rx_times_class:
  "(g', r) \<in> set (rx_times n (rx_class ic P) (g, s)) \<longleftrightarrow>
     g' = g \<and> (\<exists>w. s = w @ r \<and> length w = n \<and> list_all (class_accepts ic P) w)"
proof (induction n arbitrary: s)
  case 0
  show ?case by auto
next
  case (Suc n)
  show ?case
  proof
    assume "(g', r) \<in> set (rx_times (Suc n) (rx_class ic P) (g, s))"
    then obtain c t where c: "s = c # t" "class_accepts ic P c"
        "(g', r) \<in> set (rx_times n (rx_class ic P) (g, t))"
      by (auto simp: in_rx_seq in_rx_class)
    from c(3) Suc obtain w where "g' = g" "t = w @ r" "length w = n"
        "list_all (class_accepts ic P) w" by blast
    with c(1,2) show "g' = g \<and> (\<exists>w. s = w @ r \<and> length w = Suc n \<and> list_all (class_accepts ic P) w)"
      by (intro conjI exI [of _ "c # w"]) simp_all
  next
    assume "g' = g \<and> (\<exists>w. s = w @ r \<and> length w = Suc n \<and> list_all (class_accepts ic P) w)"
    then obtain w where w: "g' = g" "s = w @ r" "length w = Suc n"
        "list_all (class_accepts ic P) w" by blast
    then obtain c v where cv: "w = c # v" by (cases w) auto
    with w have "(g', r) \<in> set (rx_times n (rx_class ic P) (g, v @ r))"
      using Suc [of "v @ r"] by auto
    with w cv show "(g', r) \<in> set (rx_times (Suc n) (rx_class ic P) (g, s))"
      by (auto simp: in_rx_seq in_rx_class)
  qed
qed

lemma in_rx_upto_class:
  "(g', r) \<in> set (rx_upto n (rx_class ic P) (g, s)) \<longleftrightarrow>
     g' = g \<and> (\<exists>w. s = w @ r \<and> length w \<le> n \<and> list_all (class_accepts ic P) w)"
proof (induction n arbitrary: s)
  case 0
  show ?case by auto
next
  case (Suc n)
  show ?case
  proof
    assume "(g', r) \<in> set (rx_upto (Suc n) (rx_class ic P) (g, s))"
    then consider "(g', r) = (g, s)"
      | c t where "s = c # t" "class_accepts ic P c"
          "(g', r) \<in> set (rx_upto n (rx_class ic P) (g, t))"
      by (auto simp: in_rx_opt in_rx_seq in_rx_class)
    then show "g' = g \<and> (\<exists>w. s = w @ r \<and> length w \<le> Suc n \<and> list_all (class_accepts ic P) w)"
    proof cases
      case 1
      then show ?thesis by (intro conjI exI [of _ "[]"]) simp_all
    next
      case 2
      from 2(3) Suc obtain w where "g' = g" "t = w @ r" "length w \<le> n"
        "list_all (class_accepts ic P) w" by blast
      with 2(1,2) show ?thesis by (intro conjI exI [of _ "c # w"]) simp_all
    qed
  next
    assume "g' = g \<and> (\<exists>w. s = w @ r \<and> length w \<le> Suc n \<and> list_all (class_accepts ic P) w)"
    then obtain w where w: "g' = g" "s = w @ r" "length w \<le> Suc n"
        "list_all (class_accepts ic P) w" by blast
    show "(g', r) \<in> set (rx_upto (Suc n) (rx_class ic P) (g, s))"
    proof (cases w)
      case Nil
      with w show ?thesis by (simp add: in_rx_opt)
    next
      case (Cons c v)
      with w have "(g', r) \<in> set (rx_upto n (rx_class ic P) (g, v @ r))"
        using Suc [of "v @ r"] by auto
      with w Cons show ?thesis by (auto simp: in_rx_opt in_rx_seq in_rx_class)
    qed
  qed
qed

lemma in_rx_repeat_class:
  assumes "lo \<le> hi"
  shows "(g', r) \<in> set (rx_repeat lo hi (rx_class ic P) (g, s)) \<longleftrightarrow>
     g' = g \<and> (\<exists>w. s = w @ r \<and> lo \<le> length w \<and> length w \<le> hi
                \<and> list_all (class_accepts ic P) w)"
proof
  assume "(g', r) \<in> set (rx_repeat lo hi (rx_class ic P) (g, s))"
  then obtain g1 m where m: "(g1, m) \<in> set (rx_times lo (rx_class ic P) (g, s))"
      "(g', r) \<in> set (rx_upto (hi - lo) (rx_class ic P) (g1, m))"
    by (auto simp: rx_repeat_def in_rx_seq)
  from m(1) obtain u where u: "g1 = g" "s = u @ m" "length u = lo"
      "list_all (class_accepts ic P) u" by (auto simp: in_rx_times_class)
  from m(2) obtain v where v: "g' = g1" "m = v @ r" "length v \<le> hi - lo"
      "list_all (class_accepts ic P) v" by (auto simp: in_rx_upto_class)
  from u v assms show "g' = g \<and> (\<exists>w. s = w @ r \<and> lo \<le> length w \<and> length w \<le> hi
                \<and> list_all (class_accepts ic P) w)"
    by (intro conjI exI [of _ "u @ v"]) simp_all
next
  assume "g' = g \<and> (\<exists>w. s = w @ r \<and> lo \<le> length w \<and> length w \<le> hi
                \<and> list_all (class_accepts ic P) w)"
  then obtain w where w: "g' = g" "s = w @ r" "lo \<le> length w" "length w \<le> hi"
      "list_all (class_accepts ic P) w" by blast
  let ?u = "take lo w" and ?v = "drop lo w"
  have "(g, ?v @ r) \<in> set (rx_times lo (rx_class ic P) (g, s))"
    unfolding in_rx_times_class using w
    by (intro conjI exI [of _ ?u]) (simp_all add: list_all_iff, meson in_set_takeD)
  moreover have "(g', r) \<in> set (rx_upto (hi - lo) (rx_class ic P) (g, ?v @ r))"
    unfolding in_rx_upto_class using w
    by (intro conjI exI [of _ ?v]) (simp_all add: list_all_iff, meson in_set_dropD)
  ultimately show "(g', r) \<in> set (rx_repeat lo hi (rx_class ic P) (g, s))"
    by (auto simp: rx_repeat_def in_rx_seq)
qed

lemma accepts_lower_fun: "class_accepts True (char_range CHR ''a'' CHR ''z'') = ascii_letter"
  by (rule ext) (rule accepts_lower_range)

lemma accepts_upper_fun: "class_accepts True (char_range CHR ''A'' CHR ''Z'') = ascii_letter"
  by (rule ext) (rule accepts_upper_range)

lemma accepts_digit_fun: "class_accepts True (char_range CHR ''0'' CHR ''9'') = ascii_digit"
  by (rule ext) (rule accepts_digit_range)

lemma take_append_diff: "take (length (w @ r) - length r) (w @ r) = w"
  by simp

lemma in_optional_part:
  assumes body: "\<And>g s g' r. (g', r) \<in> set (body (g, s)) \<longleftrightarrow> g' = g \<and> (\<exists>w. s = w @ r \<and> Q w)"
  shows "(g', r) \<in> set (rx_opt (rx_seq (rx_class ic (one_of seps)) (rx_group name body)) (g, s)) \<longleftrightarrow>
           (g', r) = (g, s)
           \<or> (\<exists>a w. s = a # w @ r \<and> class_accepts ic (one_of seps) a \<and> Q w \<and> g' = g(name \<mapsto> w))"
proof
  assume "(g', r) \<in> set (rx_opt (rx_seq (rx_class ic (one_of seps)) (rx_group name body)) (g, s))"
  then consider "(g', r) = (g, s)"
    | a t where "s = a # t" "class_accepts ic (one_of seps) a"
        "(g', r) \<in> set (rx_group name body (g, t))"
    by (auto simp: in_rx_opt in_rx_seq in_rx_class)
  then show "(g', r) = (g, s)
           \<or> (\<exists>a w. s = a # w @ r \<and> class_accepts ic (one_of seps) a \<and> Q w \<and> g' = g(name \<mapsto> w))"
  proof cases
    case 1
    then show ?thesis by simp
  next
    case 2
    from 2(3) obtain g0 where g0: "(g0, r) \<in> set (body (g, t))"
        "g' = g0(name \<mapsto> take (length t - length r) t)"
      by (auto simp: in_rx_group)
    from g0(1) body obtain w where w: "g0 = g" "t = w @ r" "Q w" by blast
    from g0(2) w have "g' = g(name \<mapsto> w)" by simp
    with 2(1,2) w show ?thesis by blast
  qed
next
  assume "(g', r) = (g, s)
           \<or> (\<exists>a w. s = a # w @ r \<and> class_accepts ic (one_of seps) a \<and> Q w \<and> g' = g(name \<mapsto> w))"
  then show "(g', r) \<in> set (rx_opt (rx_seq (rx_class ic (one_of seps)) (rx_group name body)) (g, s))"
  proof
    assume "(g', r) = (g, s)"
    then show ?thesis by (simp add: in_rx_opt)
  next
    assume "\<exists>a w. s = a # w @ r \<and> class_accepts ic (one_of seps) a \<and> Q w \<and> g' = g(name \<mapsto> w)"
    then obtain a w where aw: "s = a # w @ r" "class_accepts ic (one_of seps) a" "Q w"
        "g' = g(name \<mapsto> w)" by blast
    from aw(3) body have "(g, r) \<in> set (body (g, w @ r))" by blast
    then have "(g', r) \<in> set (rx_group name body (g, w @ r))"
      unfolding in_rx_group using aw(4) by (intro exI [of _ g]) simp
    with aw(1,2) show ?thesis by (auto simp: in_rx_opt in_rx_seq in_rx_class)
  qed
qed

lemma in_language_group:
  "(g', r) \<in> set (rx_group ''language''
                    (rx_repeat 2 3 (rx_class True (char_range CHR ''a'' CHR ''z''))) (g, s)) \<longleftrightarrow>
     (\<exists>w. s = w @ r \<and> language_subtag w \<and> g' = g(''language'' \<mapsto> w))"
proof
  assume "(g', r) \<in> set (rx_group ''language''
                    (rx_repeat 2 3 (rx_class True (char_range CHR ''a'' CHR ''z''))) (g, s))"
  then obtain g0 where g0:
      "(g0, r) \<in> set (rx_repeat 2 3 (rx_class True (char_range CHR ''a'' CHR ''z'')) (g, s))"
      "g' = g0(''language'' \<mapsto> take (length s - length r) s)"
    by (auto simp: in_rx_group)
  from g0(1) obtain w where w: "g0 = g" "s = w @ r" "2 \<le> length w" "length w \<le> 3"
      "list_all ascii_letter w"
    by (auto simp: in_rx_repeat_class accepts_lower_fun)
  from g0(2) w have "g' = g(''language'' \<mapsto> w)" by simp
  with w show "\<exists>w. s = w @ r \<and> language_subtag w \<and> g' = g(''language'' \<mapsto> w)"
    by (auto simp: language_subtag_def)
next
  assume "\<exists>w. s = w @ r \<and> language_subtag w \<and> g' = g(''language'' \<mapsto> w)"
  then obtain w where w: "s = w @ r" "language_subtag w" "g' = g(''language'' \<mapsto> w)" by blast
  from w(2) have "(g, r) \<in> set (rx_repeat 2 3 (rx_class True (char_range CHR ''a'' CHR ''z'')) (g, w @ r))"
    by (auto simp: in_rx_repeat_class accepts_lower_fun language_subtag_def)
  then show "(g', r) \<in> set (rx_group ''language''
                    (rx_repeat 2 3 (rx_class True (char_range CHR ''a'' CHR ''z''))) (g, s))"
    unfolding in_rx_group w(1) using w(3) by (intro exI [of _ g]) simp
qed

lemma in_script_body:
  "(g', r) \<in> set (rx_seq (rx_class True (char_range CHR ''A'' CHR ''Z''))
                    (rx_repeat 3 3 (rx_class True (char_range CHR ''a'' CHR ''z''))) (g, s)) \<longleftrightarrow>
     g' = g \<and> (\<exists>w. s = w @ r \<and> script_subtag w)"
proof
  assume "(g', r) \<in> set (rx_seq (rx_class True (char_range CHR ''A'' CHR ''Z''))
                    (rx_repeat 3 3 (rx_class True (char_range CHR ''a'' CHR ''z''))) (g, s))"
  then obtain c t where c: "s = c # t" "ascii_letter c"
      "(g', r) \<in> set (rx_repeat 3 3 (rx_class True (char_range CHR ''a'' CHR ''z'')) (g, t))"
    by (auto simp: in_rx_seq in_rx_class accepts_upper_range)
  from c(3) obtain w where w: "g' = g" "t = w @ r" "length w = 3" "list_all ascii_letter w"
    by (auto simp: in_rx_repeat_class accepts_lower_fun)
  with c(1,2) show "g' = g \<and> (\<exists>w. s = w @ r \<and> script_subtag w)"
    by (intro conjI exI [of _ "c # w"]) (simp_all add: script_subtag_def)
next
  assume "g' = g \<and> (\<exists>w. s = w @ r \<and> script_subtag w)"
  then obtain w where w: "g' = g" "s = w @ r" "length w = 4" "list_all ascii_letter w"
    by (auto simp: script_subtag_def)
  then obtain c v where cv: "w = c # v" by (cases w) auto
  with w have "(g, r) \<in> set (rx_repeat 3 3 (rx_class True (char_range CHR ''a'' CHR ''z'')) (g, v @ r))"
    by (auto simp: in_rx_repeat_class accepts_lower_fun)
  with w cv show "(g', r) \<in> set (rx_seq (rx_class True (char_range CHR ''A'' CHR ''Z''))
                    (rx_repeat 3 3 (rx_class True (char_range CHR ''a'' CHR ''z''))) (g, s))"
    by (auto simp: in_rx_seq in_rx_class accepts_upper_range)
qed

lemma in_region_body:
  "(g', r) \<in> set (rx_alt (rx_repeat 2 3 (rx_class True (char_range CHR ''A'' CHR ''Z'')))
                    (rx_repeat 3 3 (rx_class True (char_range CHR ''0'' CHR ''9''))) (g, s)) \<longleftrightarrow>
     g' = g \<and> (\<exists>w. s = w @ r \<and> region_subtag w)"
  unfolding in_rx_alt
  by (auto simp: in_rx_repeat_class accepts_upper_fun accepts_digit_fun region_subtag_def)

section \<open>The standard pattern and the parts of a code\<close>

lemma std_match_parts:
  "(g', r) \<in> set (languageCodeRegex (g, s)) \<longleftrightarrow>
     (\<exists>g1 s1 g2 s2.
        (g1, s1) \<in> set (rx_group ''language''
                          (rx_repeat 2 3 (rx_class True (char_range CHR ''a'' CHR ''z''))) (g, s))
      \<and> (g2, s2) \<in> set (rx_opt (rx_seq (rx_class True (one_of ''-|_''))
               (rx_group ''script''
                  (rx_seq (rx_class True (char_range CHR ''A'' CHR ''Z''))
                          (rx_repeat 3 3 (rx_class True (char_range CHR ''a'' CHR ''z'')))))) (g1, s1))
      \<and> (g', r) \<in> set (rx_opt (rx_seq (rx_class True (one_of ''-|_''))
               (rx_group ''region''
                  (rx_alt (rx_repeat 2 3 (rx_class True (char_range CHR ''A'' CHR ''Z'')))
                          (rx_repeat 3 3 (rx_class True (char_range CHR ''0'' CHR ''9'')))))) (g2, s2)))"
  unfolding languageCodeRegex_def in_rx_seq by auto

lemma std_sound:
  assumes "(g', []) \<in> set (languageCodeRegex (Map.empty, code))"
  shows "\<exists>lang scr reg. code_parts ''-|_'' code lang scr reg
           \<and> g' ''language'' = Some lang
           \<and> g' ''script'' = map_option snd scr
           \<and> g' ''region'' = map_option snd reg"
proof -
  from assms obtain g1 s1 g2 s2 where
    1: "(g1, s1) \<in> set (rx_group ''language''
                          (rx_repeat 2 3 (rx_class True (char_range CHR ''a'' CHR ''z''))) (Map.empty, code))"
    and 2: "(g2, s2) \<in> set (rx_opt (rx_seq (rx_class True (one_of ''-|_''))
               (rx_group ''script''
                  (rx_seq (rx_class True (char_range CHR ''A'' CHR ''Z''))
                          (rx_repeat 3 3 (rx_class True (char_range CHR ''a'' CHR ''z'')))))) (g1, s1))"
    and 3: "(g', []) \<in> set (rx_opt (rx_seq (rx_class True (one_of ''-|_''))
               (rx_group ''region''
                  (rx_alt (rx_repeat 2 3 (rx_class True (char_range CHR ''A'' CHR ''Z'')))
                          (rx_repeat 3 3 (rx_class True (char_range CHR ''0'' CHR ''9'')))))) (g2, s2))"
    unfolding std_match_parts by blast
  from 1 obtain lang where lang: "code = lang @ s1" "language_subtag lang"
      "g1 = [''language'' \<mapsto> lang]"
    unfolding in_language_group by blast
  from 2 have "(g2, s2) = (g1, s1)
      \<or> (\<exists>a w. s1 = a # w @ s2 \<and> a \<in> set ''-|_'' \<and> script_subtag w \<and> g2 = g1(''script'' \<mapsto> w))"
    unfolding in_optional_part [where Q = script_subtag, OF in_script_body] accepts_separators .
  then obtain scr where scr: "s1 = separated scr @ s2"
      "case scr of None \<Rightarrow> True | Some (sep, s) \<Rightarrow> sep \<in> set ''-|_'' \<and> script_subtag s"
      "g2 ''language'' = Some lang" "g2 ''script'' = map_option snd scr" "g2 ''region'' = None"
  proof
    assume "(g2, s2) = (g1, s1)"
    with lang(3) show ?thesis by (intro that [of None]) (simp_all add: separated_def)
  next
    assume "\<exists>a w. s1 = a # w @ s2 \<and> a \<in> set ''-|_'' \<and> script_subtag w \<and> g2 = g1(''script'' \<mapsto> w)"
    then obtain a w where "s1 = a # w @ s2" "a \<in> set ''-|_''" "script_subtag w"
        "g2 = g1(''script'' \<mapsto> w)" by blast
    with lang(3) show ?thesis by (intro that [of "Some (a, w)"]) (simp_all add: separated_def)
  qed
  from 3 have "(g', []) = (g2, s2)
      \<or> (\<exists>b y. s2 = b # y @ [] \<and> b \<in> set ''-|_'' \<and> region_subtag y \<and> g' = g2(''region'' \<mapsto> y))"
    unfolding in_optional_part [where Q = region_subtag, OF in_region_body] accepts_separators .
  then obtain reg where reg: "s2 = separated reg"
      "case reg of None \<Rightarrow> True | Some (sep, s) \<Rightarrow> sep \<in> set ''-|_'' \<and> region_subtag s"
      "g' ''language'' = Some lang" "g' ''script'' = map_option snd scr"
      "g' ''region'' = map_option snd reg"
  proof
    assume "(g', []) = (g2, s2)"
    with scr show ?thesis by (intro that [of None]) (simp_all add: separated_def)
  next
    assume "\<exists>b y. s2 = b # y @ [] \<and> b \<in> set ''-|_'' \<and> region_subtag y \<and> g' = g2(''region'' \<mapsto> y)"
    then obtain b y where "s2 = b # y @ []" "b \<in> set ''-|_''" "region_subtag y"
        "g' = g2(''region'' \<mapsto> y)" by blast
    with scr show ?thesis by (intro that [of "Some (b, y)"]) (simp_all add: separated_def)
  qed
  have "code_parts ''-|_'' code lang scr reg"
    unfolding code_parts_def using lang(1,2) scr(1,2) reg(1,2) by simp
  with reg(3,4,5) show ?thesis by blast
qed

lemma std_complete:
  assumes "code_parts ''-|_'' code lang scr reg"
  shows "\<exists>g'. (g', []) \<in> set (languageCodeRegex (Map.empty, code))"
proof -
  from assms have lang: "language_subtag lang"
    and scr: "case scr of None \<Rightarrow> True | Some (sep, s) \<Rightarrow> sep \<in> set ''-|_'' \<and> script_subtag s"
    and reg: "case reg of None \<Rightarrow> True | Some (sep, s) \<Rightarrow> sep \<in> set ''-|_'' \<and> region_subtag s"
    and code: "code = lang @ separated scr @ separated reg"
    unfolding code_parts_def by simp_all
  let ?g1 = "[''language'' \<mapsto> lang]"
  let ?g2 = "case scr of None \<Rightarrow> ?g1 | Some (sep, s) \<Rightarrow> ?g1(''script'' \<mapsto> s)"
  let ?g3 = "case reg of None \<Rightarrow> ?g2 | Some (sep, s) \<Rightarrow> ?g2(''region'' \<mapsto> s)"
  have 1: "(?g1, separated scr @ separated reg) \<in> set (rx_group ''language''
                (rx_repeat 2 3 (rx_class True (char_range CHR ''a'' CHR ''z''))) (Map.empty, code))"
    unfolding in_language_group code using lang by blast
  have 2: "(?g2, separated reg) \<in> set (rx_opt (rx_seq (rx_class True (one_of ''-|_''))
               (rx_group ''script''
                  (rx_seq (rx_class True (char_range CHR ''A'' CHR ''Z''))
                          (rx_repeat 3 3 (rx_class True (char_range CHR ''a'' CHR ''z''))))))
               (?g1, separated scr @ separated reg))"
    unfolding in_optional_part [where Q = script_subtag, OF in_script_body] accepts_separators
    using scr by (cases scr) (auto simp: separated_def)
  have 3: "(?g3, []) \<in> set (rx_opt (rx_seq (rx_class True (one_of ''-|_''))
               (rx_group ''region''
                  (rx_alt (rx_repeat 2 3 (rx_class True (char_range CHR ''A'' CHR ''Z'')))
                          (rx_repeat 3 3 (rx_class True (char_range CHR ''0'' CHR ''9''))))))
               (?g2, separated reg))"
    unfolding in_optional_part [where Q = region_subtag, OF in_region_body] accepts_separators
    using reg by (cases reg) (auto simp: separated_def)
  from 1 2 3 have "(?g3, []) \<in> set (languageCodeRegex (Map.empty, code))"
    unfolding std_match_parts by blast
  then show ?thesis by blast
qed

lemma takeWhile_append_stop:
  "list_all P xs \<Longrightarrow> ys = [] \<or> \<not> P (hd ys) \<Longrightarrow> takeWhile P (xs @ ys) = xs"
  by (induction xs) (auto simp: takeWhile_eq_Nil_iff)

lemma separated_parts_head:
  assumes "case scr of None \<Rightarrow> True | Some (sep, s) \<Rightarrow> sep \<in> set ''-|_'' \<and> script_subtag s"
      and "case reg of None \<Rightarrow> True | Some (sep, s) \<Rightarrow> sep \<in> set ''-|_'' \<and> region_subtag s"
  shows "separated scr @ separated reg = [] \<or> \<not> ascii_letter (hd (separated scr @ separated reg))"
proof (cases scr)
  case (Some p)
  with assms(1) show ?thesis
    by (cases p) (simp add: separated_def separator_not_letter)
next
  case None
  show ?thesis
  proof (cases reg)
    case None
    with \<open>scr = None\<close> show ?thesis by (simp add: separated_def)
  next
    case (Some p)
    with assms(2) \<open>scr = None\<close> show ?thesis
      by (cases p) (simp add: separated_def separator_not_letter)
  qed
qed

lemma region_part_inj:
  "separated reg = separated reg' \<Longrightarrow> reg = reg'"
  by (cases reg; cases reg') (auto simp: separated_def)

lemma script_part_not_region:
  assumes "script_subtag x"
      and "case reg' of None \<Rightarrow> True | Some (sep, s) \<Rightarrow> sep \<in> set ''-|_'' \<and> region_subtag s"
  shows "a # x @ rest \<noteq> separated reg'"
proof
  assume e: "a # x @ rest = separated reg'"
  then obtain b y where reg': "reg' = Some (b, y)" by (cases reg') (auto simp: separated_def)
  with e have "x @ rest = y" by (simp add: separated_def)
  then have "length y = length x + length rest" by auto
  moreover from assms(1) have "length x = 4" by (simp add: script_subtag_def)
  moreover from assms(2) reg' have "length y \<le> 3" by (auto simp: region_subtag_def)
  ultimately show False by simp
qed

lemma code_parts_unique:
  assumes a: "code_parts ''-|_'' code lang scr reg" and b: "code_parts ''-|_'' code lang' scr' reg'"
  shows "lang = lang' \<and> scr = scr' \<and> reg = reg'"
proof -
  from a have la: "list_all ascii_letter lang"
    and sa: "case scr of None \<Rightarrow> True | Some (sep, s) \<Rightarrow> sep \<in> set ''-|_'' \<and> script_subtag s"
    and ra: "case reg of None \<Rightarrow> True | Some (sep, s) \<Rightarrow> sep \<in> set ''-|_'' \<and> region_subtag s"
    and ca: "code = lang @ separated scr @ separated reg"
    unfolding code_parts_def language_subtag_def by simp_all
  from b have lb: "list_all ascii_letter lang'"
    and sb: "case scr' of None \<Rightarrow> True | Some (sep, s) \<Rightarrow> sep \<in> set ''-|_'' \<and> script_subtag s"
    and rb: "case reg' of None \<Rightarrow> True | Some (sep, s) \<Rightarrow> sep \<in> set ''-|_'' \<and> region_subtag s"
    and cb: "code = lang' @ separated scr' @ separated reg'"
    unfolding code_parts_def language_subtag_def by simp_all
  have "takeWhile ascii_letter code = lang"
    unfolding ca by (rule takeWhile_append_stop [OF la separated_parts_head [OF sa ra]])
  moreover have "takeWhile ascii_letter code = lang'"
    unfolding cb by (rule takeWhile_append_stop [OF lb separated_parts_head [OF sb rb]])
  ultimately have l: "lang = lang'" by simp
  with ca cb have t: "separated scr @ separated reg = separated scr' @ separated reg'" by simp
  have "scr = scr' \<and> reg = reg'"
  proof (cases scr)
    case None
    show ?thesis
    proof (cases scr')
      case None
      with \<open>scr = None\<close> t show ?thesis by (simp add: separated_def region_part_inj)
    next
      case (Some q)
      obtain c y where q: "q = (c, y)" by (cases q)
      with Some sb have "script_subtag y" by simp
      from script_part_not_region [OF this ra, of c "separated reg'"] t Some q \<open>scr = None\<close>
      show ?thesis by (simp add: separated_def)
    qed
  next
    case (Some p)
    obtain a x where p: "p = (a, x)" by (cases p)
    with Some sa have x: "script_subtag x" by simp
    show ?thesis
    proof (cases scr')
      case None
      from script_part_not_region [OF x rb, of a "separated reg"] t Some p None
      show ?thesis by (simp add: separated_def)
    next
      case (Some q)
      obtain c y where q: "q = (c, y)" by (cases q)
      with Some sb have y: "script_subtag y" by simp
      from t \<open>scr = Some p\<close> p Some q have e: "a = c" "x @ separated reg = y @ separated reg'"
        by (simp_all add: separated_def)
      from x y have "length x = length y" by (simp add: script_subtag_def)
      with e(2) have "x = y" "separated reg = separated reg'" by simp_all
      with e(1) \<open>scr = Some p\<close> p Some q show ?thesis by (simp add: region_part_inj)
    qed
  qed
  with l show ?thesis by simp
qed

lemma rx_test_iff: "rx_test re s \<longleftrightarrow> (\<exists>g. (g, []) \<in> set (re (Map.empty, s)))"
  by (auto simp: rx_test_def rx_exec_def find_None_iff)

lemma find_Some_in: "find P xs = Some x \<Longrightarrow> x \<in> set xs \<and> P x"
  by (induction xs) (auto split: if_splits)

lemma rx_exec_Some: "rx_exec re s = Some g \<Longrightarrow> (g, []) \<in> set (re (Map.empty, s))"
proof -
  assume "rx_exec re s = Some g"
  then obtain x where x: "find (\<lambda>st. snd st = []) (re (Map.empty, s)) = Some x" "fst x = g"
    by (auto simp: rx_exec_def)
  from find_Some_in [OF x(1)] have "x \<in> set (re (Map.empty, s))" "snd x = []" by simp_all
  moreover from x(2) \<open>snd x = []\<close> have "x = (g, [])" by (cases x) simp
  ultimately show ?thesis by simp
qed

lemma rx_test_std_iff:
  "rx_test languageCodeRegex code \<longleftrightarrow> (\<exists>lang scr reg. code_parts ''-|_'' code lang scr reg)"
proof
  assume "rx_test languageCodeRegex code"
  then obtain g where "(g, []) \<in> set (languageCodeRegex (Map.empty, code))"
    unfolding rx_test_iff by blast
  from std_sound [OF this] show "\<exists>lang scr reg. code_parts ''-|_'' code lang scr reg" by blast
next
  assume "\<exists>lang scr reg. code_parts ''-|_'' code lang scr reg"
  then obtain lang scr reg where "code_parts ''-|_'' code lang scr reg" by blast
  from std_complete [OF this] show "rx_test languageCodeRegex code"
    unfolding rx_test_iff .
qed

lemma rx_exec_std:
  assumes "code_parts ''-|_'' code lang scr reg"
  shows "\<exists>g. rx_exec languageCodeRegex code = Some g \<and> g ''language'' = Some lang
            \<and> g ''script'' = map_option snd scr \<and> g ''region'' = map_option snd reg"
proof -
  from assms have "rx_test languageCodeRegex code" unfolding rx_test_std_iff by blast
  then obtain g where g: "rx_exec languageCodeRegex code = Some g"
    by (auto simp: rx_test_def)
  from std_sound [OF rx_exec_Some [OF g]] obtain lang' scr' reg' where
    p: "code_parts ''-|_'' code lang' scr' reg'" and
    f: "g ''language'' = Some lang'" "g ''script'' = map_option snd scr'"
       "g ''region'' = map_option snd reg'" by blast
  from code_parts_unique [OF assms p] f g show ?thesis by simp
qed


section \<open>Validation\<close>

lemma bar_not_subtag_char: "\<not> ascii_letter CHR ''|'' \<and> \<not> ascii_digit CHR ''|''"
  by (simp add: ascii_letter_def ascii_digit_def char_range_def)

lemma code_parts_chars:
  assumes "code_parts seps code lang scr reg" and "c \<in> set code"
  shows "ascii_letter c \<or> ascii_digit c \<or> c \<in> set seps"
proof -
  from assms(1) have lang: "list_all ascii_letter lang"
    and scr: "case scr of None \<Rightarrow> True | Some (sep, s) \<Rightarrow> sep \<in> set seps \<and> script_subtag s"
    and reg: "case reg of None \<Rightarrow> True | Some (sep, s) \<Rightarrow> sep \<in> set seps \<and> region_subtag s"
    and code: "code = lang @ separated scr @ separated reg"
    unfolding code_parts_def language_subtag_def by simp_all
  have s: "ascii_letter c \<or> ascii_digit c \<or> c \<in> set seps" if "c \<in> set (separated scr)"
  proof (cases scr)
    case None
    with that show ?thesis by (simp add: separated_def)
  next
    case (Some q)
    obtain a x where q: "q = (a, x)" by (cases q)
    with Some scr that show ?thesis
      by (auto simp: separated_def script_subtag_def list_all_iff)
  qed
  have r: "ascii_letter c \<or> ascii_digit c \<or> c \<in> set seps" if "c \<in> set (separated reg)"
  proof (cases reg)
    case None
    with that show ?thesis by (simp add: separated_def)
  next
    case (Some q)
    obtain a x where q: "q = (a, x)" by (cases q)
    with Some reg that show ?thesis
      by (auto simp: separated_def region_subtag_def list_all_iff)
  qed
  from assms(2) code have "c \<in> set lang \<or> c \<in> set (separated scr) \<or> c \<in> set (separated reg)"
    by auto
  with lang s r show ?thesis by (auto simp: list_all_iff)
qed

lemma code_parts_mono:
  assumes "set seps \<subseteq> set seps'" and "code_parts seps code lang scr reg"
  shows "code_parts seps' code lang scr reg"
  using assms unfolding code_parts_def
  by (cases scr; cases reg) auto

lemma separator_in_code:
  "code = lang @ separated scr @ separated reg \<Longrightarrow>
     (\<forall>a x. scr = Some (a, x) \<longrightarrow> a \<in> set code) \<and> (\<forall>b y. reg = Some (b, y) \<longrightarrow> b \<in> set code)"
  by (auto simp: separated_def)

lemma code_parts_without_bar:
  assumes "CHR ''|'' \<notin> set code" and "code_parts ''-|_'' code lang scr reg"
  shows "code_parts ''-_'' code lang scr reg"
proof -
  from assms(2) have lang: "language_subtag lang"
    and scr: "case scr of None \<Rightarrow> True | Some (sep, s) \<Rightarrow> sep \<in> set ''-|_'' \<and> script_subtag s"
    and reg: "case reg of None \<Rightarrow> True | Some (sep, s) \<Rightarrow> sep \<in> set ''-|_'' \<and> region_subtag s"
    and code: "code = lang @ separated scr @ separated reg"
    unfolding code_parts_def by simp_all
  note inc = separator_in_code [OF code]
  have scr': "case scr of None \<Rightarrow> True | Some (sep, s) \<Rightarrow> sep \<in> set ''-_'' \<and> script_subtag s"
  proof (cases scr)
    case None
    then show ?thesis by simp
  next
    case (Some q)
    obtain a x where q: "q = (a, x)" by (cases q)
    with Some inc have "a \<in> set code" by blast
    with assms(1) have "a \<noteq> CHR ''|''" by auto
    with Some q scr show ?thesis by auto
  qed
  have reg': "case reg of None \<Rightarrow> True | Some (sep, s) \<Rightarrow> sep \<in> set ''-_'' \<and> region_subtag s"
  proof (cases reg)
    case None
    then show ?thesis by simp
  next
    case (Some q)
    obtain a x where q: "q = (a, x)" by (cases q)
    with Some inc have "a \<in> set code" by blast
    with assms(1) have "a \<noteq> CHR ''|''" by auto
    with Some q reg show ?thesis by auto
  qed
  from lang scr' reg' code show ?thesis unfolding code_parts_def by simp
qed

text \<open>Without the character \<open>|\<close>, the standard pattern matches the codes of the grammar.\<close>

lemma rx_test_std_without_bar:
  assumes "CHR ''|'' \<notin> set code"
  shows "rx_test languageCodeRegex code \<longleftrightarrow> (\<exists>lang scr reg. code_parts ''-_'' code lang scr reg)"
proof
  assume "rx_test languageCodeRegex code"
  then obtain lang scr reg where "code_parts ''-|_'' code lang scr reg"
    unfolding rx_test_std_iff by blast
  from code_parts_without_bar [OF assms this]
  show "\<exists>lang scr reg. code_parts ''-_'' code lang scr reg" by blast
next
  assume "\<exists>lang scr reg. code_parts ''-_'' code lang scr reg"
  then obtain lang scr reg where "code_parts ''-_'' code lang scr reg" by blast
  then have "code_parts ''-|_'' code lang scr reg"
    by (rule code_parts_mono [rotated]) auto
  then show "rx_test languageCodeRegex code" unfolding rx_test_std_iff by blast
qed

text \<open>
  Claim C4, as the code has it. \<open>validateLanguageCode\<close> takes the code only, not a file
  format, and tests it against the standard pattern, whatever the format of the file. For
  every code without the character \<open>|\<close>, it is true exactly when the code is made of a
  language subtag of two or three letters, then optionally a separator and a script subtag
  of four letters, then optionally a separator and a region subtag of two or three letters
  or three digits, the letters in either case and each separator \<open>-\<close> or \<open>_\<close>. The
  case-strict ARB pattern plays no part in it.
\<close>

theorem validate_matches_standard_grammar:
  "CHR ''|'' \<notin> set code \<longrightarrow>
     (validateLanguageCode code \<longleftrightarrow> (\<exists>lang scr reg. code_parts ''-_'' code lang scr reg))"
proof
  assume nb: "CHR ''|'' \<notin> set code"
  have "rx_test languageCodeRegex code \<Longrightarrow> code \<noteq> []"
    using rx_test_Nil_std by auto
  then have "validateLanguageCode code \<longleftrightarrow> rx_test languageCodeRegex code"
    by (auto simp: validateLanguageCode_def)
  then show "validateLanguageCode code \<longleftrightarrow> (\<exists>lang scr reg. code_parts ''-_'' code lang scr reg)"
    by (simp add: rx_test_std_without_bar [OF nb])
qed

text \<open>\<open>EN_us\<close> and \<open>zh-Hans-CN\<close> are valid, \<open>x\<close> is not.\<close>

theorem validate_matches_standard_grammar_witness:
  "validateLanguageCode ''EN_us'' \<and> validateLanguageCode ''zh-Hans-CN'' \<and> \<not> validateLanguageCode ''x''"
proof -
  have n1: "CHR ''|'' \<notin> set ''EN_us''" by simp
  have "code_parts ''-_'' ''EN_us'' ''EN'' None (Some (CHR ''_'', ''us''))" by code_simp
  then have "\<exists>lang scr reg. code_parts ''-_'' ''EN_us'' lang scr reg" by blast
  with validate_matches_standard_grammar [of "''EN_us''", THEN mp, OF n1]
  have a: "validateLanguageCode ''EN_us''" by (rule iffD2)
  have n2: "CHR ''|'' \<notin> set ''zh-Hans-CN''" by simp
  have "code_parts ''-_'' ''zh-Hans-CN'' ''zh'' (Some (CHR ''-'', ''Hans'')) (Some (CHR ''-'', ''CN''))"
    by code_simp
  then have "\<exists>lang scr reg. code_parts ''-_'' ''zh-Hans-CN'' lang scr reg" by blast
  with validate_matches_standard_grammar [of "''zh-Hans-CN''", THEN mp, OF n2]
  have b: "validateLanguageCode ''zh-Hans-CN''" by (rule iffD2)
  have c: "\<not> validateLanguageCode ''x''" by code_simp
  show ?thesis by (rule conjI [OF a conjI [OF b c]])
qed

text \<open>
  The claim as it is written makes validation follow the active format and reject
  \<open>EN_us\<close> for an ARB file. The ARB pattern does reject \<open>EN_us\<close>, but
  \<open>validateLanguageCode\<close> accepts it, since it never uses that pattern.
\<close>

theorem validate_format_counterexample:
  "validateLanguageCode ''EN_us'' \<and> \<not> rx_test arbLanguageCodeRegex ''EN_us''"
  by code_simp

section \<open>Normalization\<close>

text \<open>
  What \<open>normalizeLanguageCode\<close> does with every input: an input that the standard pattern
  does not match is returned unchanged, and an input it matches is rewritten from its parts.
\<close>

lemma normalize_by_pattern:
  "(\<not> rx_test languageCodeRegex code \<longrightarrow> normalizeLanguageCode code = code)
   \<and> (rx_test languageCodeRegex code \<longleftrightarrow> (\<exists>lang scr reg. code_parts ''-|_'' code lang scr reg))
   \<and> (\<forall>lang scr reg. code_parts ''-|_'' code lang scr reg \<longrightarrow>
         normalizeLanguageCode code =
           toLowerCase lang
           @ (case scr of None \<Rightarrow> []
              | Some (sep, s) \<Rightarrow> ''-'' @ toUpperCase (take 1 s) @ toLowerCase (drop 1 s))
           @ (case reg of None \<Rightarrow> [] | Some (sep, s) \<Rightarrow> ''-'' @ toUpperCase s))"
proof (intro conjI allI impI)
  assume "\<not> rx_test languageCodeRegex code"
  then show "normalizeLanguageCode code = code"
    by (simp add: normalizeLanguageCode_def rx_test_def)
next
  show "rx_test languageCodeRegex code \<longleftrightarrow> (\<exists>lang scr reg. code_parts ''-|_'' code lang scr reg)"
    by (rule rx_test_std_iff)
next
  fix lang scr reg
  assume p: "code_parts ''-|_'' code lang scr reg"
  from rx_exec_std [OF p] obtain g where g: "rx_exec languageCodeRegex code = Some g"
      "g ''language'' = Some lang" "g ''script'' = map_option snd scr"
      "g ''region'' = map_option snd reg" by blast
  have s: "truthy (g ''script'') \<longleftrightarrow> scr \<noteq> None"
  proof (cases scr)
    case None
    with g(3) show ?thesis by (simp add: truthy_def)
  next
    case (Some q)
    with p have "length (snd q) = 4"
      by (cases q) (simp add: code_parts_def script_subtag_def)
    then have "snd q \<noteq> []" by auto
    with Some g(3) show ?thesis by (simp add: truthy_def)
  qed
  have r: "truthy (g ''region'') \<longleftrightarrow> reg \<noteq> None"
  proof (cases reg)
    case None
    with g(4) show ?thesis by (simp add: truthy_def)
  next
    case (Some q)
    with p have "2 \<le> length (snd q)"
      by (cases q) (auto simp: code_parts_def region_subtag_def)
    then have "snd q \<noteq> []" by auto
    with Some g(4) show ?thesis by (simp add: truthy_def)
  qed
  show "normalizeLanguageCode code =
           toLowerCase lang
           @ (case scr of None \<Rightarrow> []
              | Some (sep, s) \<Rightarrow> ''-'' @ toUpperCase (take 1 s) @ toLowerCase (drop 1 s))
           @ (case reg of None \<Rightarrow> [] | Some (sep, s) \<Rightarrow> ''-'' @ toUpperCase s)"
    unfolding normalizeLanguageCode_def Let_def g(1) option.case s r
    using g(2,3,4) by (cases scr; cases reg) (auto)
qed

text \<open>
  For every input without the character \<open>|\<close> this is what the specification asks for: an
  input that is not a language code (separators \<open>-\<close> or \<open>_\<close>) is returned unchanged; a language
  code gives the language in lower case, then, if there is a script, \<open>-\<close> and the script
  with its first letter in upper case and the rest in lower case, then, if there is a
  region, \<open>-\<close> and the region in upper case.
\<close>

lemma normalize_without_bar:
  assumes "CHR ''|'' \<notin> set code"
  shows "(\<not> (\<exists>lang scr reg. code_parts ''-_'' code lang scr reg) \<longrightarrow> normalizeLanguageCode code = code)
   \<and> (\<forall>lang scr reg. code_parts ''-_'' code lang scr reg \<longrightarrow>
         normalizeLanguageCode code =
           toLowerCase lang
           @ (case scr of None \<Rightarrow> []
              | Some (sep, s) \<Rightarrow> ''-'' @ toUpperCase (take 1 s) @ toLowerCase (drop 1 s))
           @ (case reg of None \<Rightarrow> [] | Some (sep, s) \<Rightarrow> ''-'' @ toUpperCase s))"
proof (intro conjI allI impI)
  assume "\<not> (\<exists>lang scr reg. code_parts ''-_'' code lang scr reg)"
  then have "\<not> rx_test languageCodeRegex code"
    unfolding rx_test_std_without_bar [OF assms] .
  with normalize_by_pattern [of code] show "normalizeLanguageCode code = code" by blast
next
  fix lang scr reg
  assume "code_parts ''-_'' code lang scr reg"
  then have "code_parts ''-|_'' code lang scr reg"
    by (rule code_parts_mono [rotated]) auto
  with normalize_by_pattern [of code]
  show "normalizeLanguageCode code =
           toLowerCase lang
           @ (case scr of None \<Rightarrow> []
              | Some (sep, s) \<Rightarrow> ''-'' @ toUpperCase (take 1 s) @ toLowerCase (drop 1 s))
           @ (case reg of None \<Rightarrow> [] | Some (sep, s) \<Rightarrow> ''-'' @ toUpperCase s)"
    by blast
qed

text \<open>The examples of the claim.\<close>

lemma normalize_examples:
  "normalizeLanguageCode ''ZH-hans-CN'' = ''zh-Hans-CN''
   \<and> normalizeLanguageCode ''invalid-code'' = ''invalid-code''"
  by code_simp

text \<open>
  Claim C8 does not hold for an input with the character \<open>|\<close>. In the class \<open>[-|_]\<close> of
  the standard pattern the bar is a character, not an alternative, so the pattern takes
  \<open>|\<close> for a separator: \<open>en|us\<close> is not a language code of the grammar, whose separators are
  \<open>-\<close> and \<open>_\<close>, and should be returned unchanged, but \<open>normalizeLanguageCode\<close> rewrites it
  to \<open>en-US\<close>.
\<close>

theorem normalize_rewrites_bar_separated_input:
  "normalizeLanguageCode ''en|us'' = ''en-US''
   \<and> \<not> (\<exists>lang scr reg. code_parts ''-_'' ''en|us'' lang scr reg)"
proof
  show "normalizeLanguageCode ''en|us'' = ''en-US''" by code_simp
next
  show "\<not> (\<exists>lang scr reg. code_parts ''-_'' ''en|us'' lang scr reg)"
  proof
    assume "\<exists>lang scr reg. code_parts ''-_'' ''en|us'' lang scr reg"
    then obtain lang scr reg where p: "code_parts ''-_'' ''en|us'' lang scr reg" by blast
    have "CHR ''|'' \<in> set ''en|us''" by simp
    from code_parts_chars [OF p this] bar_not_subtag_char show False by simp
  qed
qed

end
